theory Spec2Isabelle
  imports Complex_Main "HOL-Library.AList"
begin

section \<open>Errors\<close>

text \<open>
  Every exception the Python source can raise is a value of \<open>error\<close>; a function that
  can raise returns \<open>error + 'a\<close> with \<open>Inl\<close> for the exception.
\<close>

datatype error =
  IndexError | KeyError | ValueError | TypeError | AttributeError | AssertionError | NameError

definition ebind :: "error + 'a \<Rightarrow> ('a \<Rightarrow> error + 'b) \<Rightarrow> error + 'b" where
  "ebind r f = (case r of Inl e \<Rightarrow> Inl e | Inr x \<Rightarrow> f x)"

section \<open>Values and the matrix-form model\<close>

text \<open>
  The values a parsed state stores under a field name: a token (\<^verbatim>\<open>str\<close>), an \<^verbatim>\<open>int\<close>, a list
  of tokens, or a dictionary from tokens to floats. \<open>VSMap\<close> is a dictionary whose values
  are strings: \<^verbatim>\<open>dict(...)\<close> applied to a list of two-character tokens builds one.
  Dictionaries are association lists in insertion order.

  Floats are modelled as real numbers: rounding and the non-finite floats a model file
  cannot denote by a probability are outside the model.
\<close>

datatype pvalue =
  VStr string
| VInt int
| VList "string list"
| VMap "(string \<times> real) list"
| VSMap "(string \<times> string) list"

text \<open>
  The model \<^verbatim>\<open>(header, (initial, transitions, emissions, char_map, label_map, name_map))\<close>.
  The numpy arrays are lists (of rows); the three index dictionaries are maps.
\<close>

record model =
  header :: "(string \<times> string) list"
  initial :: "real list"
  transitions :: "real list list"
  emissions :: "real list list"
  char_map :: "char \<rightharpoonup> nat"
  label_map :: "nat \<rightharpoonup> pvalue"
  name_map :: "nat \<rightharpoonup> string"

section \<open>Indexing\<close>

text \<open>Indexing a sequence, a two-dimensional array, and a dictionary.\<close>

definition py_index :: "'a list \<Rightarrow> nat \<Rightarrow> error + 'a" where
  "py_index xs i = (if i < length xs then Inr (xs ! i) else Inl IndexError)"

definition get2 :: "'a list list \<Rightarrow> nat \<Rightarrow> nat \<Rightarrow> error + 'a" where
  "get2 A i j = (if i < length A \<and> j < length (A ! i) then Inr (A ! i ! j) else Inl IndexError)"

definition put2 :: "'a list list \<Rightarrow> nat \<Rightarrow> nat \<Rightarrow> 'a \<Rightarrow> error + 'a list list" where
  "put2 A i j v =
     (if i < length A \<and> j < length (A ! i) then Inr (A[i := (A ! i)[j := v]]) else Inl IndexError)"

definition zeros2 :: "nat \<Rightarrow> nat \<Rightarrow> 'a \<Rightarrow> 'a list list" where
  "zeros2 n m z = replicate n (replicate m z)"

definition py_lookup :: "('k \<rightharpoonup> 'v) \<Rightarrow> 'k \<Rightarrow> error + 'v" where
  "py_lookup d k = (case d k of None \<Rightarrow> Inl KeyError | Some v \<Rightarrow> Inr v)"

section \<open>Dictionaries\<close>

text \<open>
  A Python dictionary with string keys is an association list with distinct keys in
  insertion order: \<^verbatim>\<open>d[k] = v\<close> is \<^const>\<open>AList.update\<close> (an existing key keeps its place),
  \<^verbatim>\<open>del d[k]\<close> is \<^const>\<open>AList.delete\<close>, \<^verbatim>\<open>k in d\<close> is membership in the keys, and \<^verbatim>\<open>d[k]\<close> is
  \<open>dict_get\<close>.
\<close>

definition dict_get :: "('k \<times> 'v) list \<Rightarrow> 'k \<Rightarrow> error + 'v" where
  "dict_get d k = (case map_of d k of None \<Rightarrow> Inl KeyError | Some v \<Rightarrow> Inr v)"

text \<open>\<^verbatim>\<open>dict(pairs)\<close>: the pairs are inserted from left to right.\<close>

definition dict_of_pairs :: "('k \<times> 'v) list \<Rightarrow> ('k \<times> 'v) list" where
  "dict_of_pairs ps = foldl (\<lambda>d kv. AList.update (fst kv) (snd kv) d) [] ps"

section \<open>Tokenizer\<close>





section \<open>Grammar parser\<close>



















section \<open>State normalizer\<close>

text \<open>
  \<^verbatim>\<open>states[key]\<close> for a key that is a field value: a list or a dictionary is not hashable,
  an \<^verbatim>\<open>int\<close> is no key of \<^verbatim>\<open>states\<close>.
\<close>

fun states_get ::
  "(string \<times> 'v) list \<Rightarrow> pvalue \<Rightarrow> error + 'v" where
  "states_get states (VStr s) = dict_get states s"
| "states_get states (VInt n) = Inl KeyError"
| "states_get states v = Inl TypeError"

text \<open>
  What iterating a value yields (\<^verbatim>\<open>zip\<close> iterates its first argument): the elements of a
  list, the keys of a dictionary, the characters of a string.
\<close>

fun py_iter :: "pvalue \<Rightarrow> error + string list" where
  "py_iter (VStr s) = Inr (map (\<lambda>c. [c]) s)"
| "py_iter (VInt n) = Inl TypeError"
| "py_iter (VList l) = Inr l"
| "py_iter (VMap m) = Inr (map fst m)"
| "py_iter (VSMap m) = Inr (map fst m)"

text \<open>\<^verbatim>\<open>v.values()\<close>: the floats or the strings of a dictionary, in key-insertion order.\<close>

fun py_values :: "pvalue \<Rightarrow> error + (real list + string list)" where
  "py_values (VMap m) = Inr (Inl (map snd m))"
| "py_values (VSMap m) = Inr (Inr (map snd m))"
| "py_values v = Inl AttributeError"

text \<open>\<^verbatim>\<open>dict(zip(keys, values))\<close>.\<close>

definition zip_dict :: "string list \<Rightarrow> real list + string list \<Rightarrow> pvalue" where
  "zip_dict keys vals =
     (case vals of
        Inl rs \<Rightarrow> VMap (dict_of_pairs (zip keys rs))
      | Inr ss \<Rightarrow> VSMap (dict_of_pairs (zip keys ss)))"

text \<open>
  \<^verbatim>\<open>dict(v)\<close>: a copy of a dictionary; a sequence must consist of elements of length two,
  each a key and a value (the two characters of a token).
\<close>

fun py_dict :: "pvalue \<Rightarrow> error + pvalue" where
  "py_dict (VMap m) = Inr (VMap m)"
| "py_dict (VSMap m) = Inr (VSMap m)"
| "py_dict (VList l) =
     (if \<forall>s\<in>set l. length s = 2
      then Inr (VSMap (dict_of_pairs (map (\<lambda>s. ([s ! 0], [s ! 1])) l)))
      else Inl ValueError)"
| "py_dict (VStr s) = (if s = [] then Inr (VSMap []) else Inl ValueError)"
| "py_dict (VInt n) = Inl TypeError"

text \<open>
  The body of the loop of \<^verbatim>\<open>_normalize_states\<close> for the entry \<open>name\<close>, in two steps; each
  returns the updated \<^verbatim>\<open>states\<close>.
\<close>

definition tie_trans ::
  "(string \<times> (string \<times> pvalue) list) list \<Rightarrow> string
     \<Rightarrow> error + (string \<times> (string \<times> pvalue) list) list" where
  "tie_trans states name =
     ebind (dict_get states name) (\<lambda>state.
     if ''tied_trans'' \<in> fst ` set state then
       ebind (dict_get state ''tied_trans'') (\<lambda>tied.
       ebind (states_get states tied) (\<lambda>parent_state.
       ebind (dict_get state ''trans'') (\<lambda>to_states.
       ebind (dict_get parent_state ''trans'') (\<lambda>parent_trans.
       ebind (py_values parent_trans) (\<lambda>vals.
       ebind (py_iter to_states) (\<lambda>keys.
       Inr (AList.update name (AList.update ''trans'' (zip_dict keys vals) state) states)))))))
     else Inr states)"

definition tie_letter ::
  "(string \<times> (string \<times> pvalue) list) list \<Rightarrow> string
     \<Rightarrow> error + (string \<times> (string \<times> pvalue) list) list" where
  "tie_letter states name =
     ebind (dict_get states name) (\<lambda>state.
     if ''tied_letter'' \<in> fst ` set state then
       ebind (dict_get state ''tied_letter'') (\<lambda>parent_state.
       ebind (states_get states parent_state) (\<lambda>parent.
       ebind (dict_get parent ''only'') (\<lambda>parent_only.
       ebind (py_dict parent_only) (\<lambda>copy.
       Inr (AList.update name (AList.update ''only'' copy state) states)))))
     else Inr states)"

definition normalize_state ::
  "(string \<times> (string \<times> pvalue) list) list \<Rightarrow> string
     \<Rightarrow> error + (string \<times> (string \<times> pvalue) list) list" where
  "normalize_state states name = ebind (tie_trans states name) (\<lambda>states'. tie_letter states' name)"

fun normalize_loop ::
  "string list \<Rightarrow> (string \<times> (string \<times> pvalue) list) list
     \<Rightarrow> error + (string \<times> (string \<times> pvalue) list) list" where
  "normalize_loop [] states = Inr states"
| "normalize_loop (name # names) states =
     ebind (normalize_state states name) (normalize_loop names)"

definition normalize_states ::
  "(string \<times> (string \<times> pvalue) list) list
     \<Rightarrow> error + (string \<times> (string \<times> pvalue) list) list" where
  "normalize_states states = normalize_loop (map fst states) states"

section \<open>Matrix builder\<close>

text \<open>
  \<^verbatim>\<open>{v: k for k, v in enumerate(xs)}\<close>: a later occurrence of an element overwrites the
  index of an earlier one.
\<close>

definition index_map :: "'a list \<Rightarrow> ('a \<rightharpoonup> nat)" where
  "index_map xs = foldl (\<lambda>m kv. m(snd kv \<mapsto> fst kv)) Map.empty (List.enumerate 0 xs)"

text \<open>
  \<^verbatim>\<open>v.items()\<close>, and the float that numpy stores when a float array is assigned a float or a
  string (a string is converted as \<^verbatim>\<open>float\<close> converts it, the parameter \<open>fl\<close>).
\<close>

fun py_items :: "pvalue \<Rightarrow> error + (string \<times> (real + string)) list" where
  "py_items (VMap m) = Inr (map (\<lambda>kv. (fst kv, Inl (snd kv))) m)"
| "py_items (VSMap m) = Inr (map (\<lambda>kv. (fst kv, Inr (snd kv))) m)"
| "py_items v = Inl AttributeError"

definition np_float :: "(string \<Rightarrow> real option) \<Rightarrow> real + string \<Rightarrow> error + real" where
  "np_float fl x =
     (case x of
        Inl r \<Rightarrow> Inr r
      | Inr s \<Rightarrow> (case fl s of None \<Rightarrow> Inl ValueError | Some r \<Rightarrow> Inr r))"

text \<open>\<^verbatim>\<open>char_map[character]\<close> for a token: the keys of \<^verbatim>\<open>char_map\<close> are single characters.\<close>

definition char_get :: "(char \<rightharpoonup> nat) \<Rightarrow> string \<Rightarrow> error + nat" where
  "char_get cm character = (case character of [c] \<Rightarrow> py_lookup cm c | _ \<Rightarrow> Inl KeyError)"

text \<open>
  The three loops over \<^verbatim>\<open>items()\<close>. The indices come from \<^verbatim>\<open>state_map\<close> and \<^verbatim>\<open>char_map\<close>,
  which enumerate the states and the alphabet the arrays are sized by, so no assignment is
  out of range.
\<close>

fun initial_loop ::
  "(string \<Rightarrow> real option) \<Rightarrow> (string \<rightharpoonup> nat) \<Rightarrow> (string \<times> (real + string)) list
     \<Rightarrow> real list \<Rightarrow> error + real list" where
  "initial_loop fl state_map [] ini = Inr ini"
| "initial_loop fl state_map (item # rest) ini =
     ebind (py_lookup state_map (fst item)) (\<lambda>this_state_idx.
     ebind (np_float fl (snd item)) (\<lambda>trans_prob.
     initial_loop fl state_map rest (ini[this_state_idx := trans_prob])))"

fun trans_loop ::
  "(string \<Rightarrow> real option) \<Rightarrow> (string \<rightharpoonup> nat) \<Rightarrow> nat \<Rightarrow> (string \<times> (real + string)) list
     \<Rightarrow> real list list \<Rightarrow> error + real list list" where
  "trans_loop fl state_map this_state_idx [] tr = Inr tr"
| "trans_loop fl state_map this_state_idx (item # rest) tr =
     ebind (py_lookup state_map (fst item)) (\<lambda>other_state_idx.
     ebind (np_float fl (snd item)) (\<lambda>trans_prob.
     trans_loop fl state_map this_state_idx rest
       (tr[this_state_idx := (tr ! this_state_idx)[other_state_idx := trans_prob]])))"

fun emis_loop ::
  "(string \<Rightarrow> real option) \<Rightarrow> (char \<rightharpoonup> nat) \<Rightarrow> nat \<Rightarrow> (string \<times> (real + string)) list
     \<Rightarrow> real list list \<Rightarrow> error + real list list" where
  "emis_loop fl cm this_state_idx [] emi = Inr emi"
| "emis_loop fl cm this_state_idx (item # rest) emi =
     ebind (char_get cm (fst item)) (\<lambda>this_character_idx.
     ebind (np_float fl (snd item)) (\<lambda>emission_prob.
     emis_loop fl cm this_state_idx rest
       (emi[this_state_idx := (emi ! this_state_idx)[this_character_idx := emission_prob]])))"

text \<open>The loop \<^verbatim>\<open>for state_name, state in states.items()\<close>.\<close>

fun states_loop ::
  "(string \<Rightarrow> real option) \<Rightarrow> (string \<rightharpoonup> nat) \<Rightarrow> (char \<rightharpoonup> nat)
     \<Rightarrow> (string \<times> (string \<times> pvalue) list) list
     \<Rightarrow> real list list \<times> real list list \<times> (nat \<rightharpoonup> pvalue)
     \<Rightarrow> error + real list list \<times> real list list \<times> (nat \<rightharpoonup> pvalue)" where
  "states_loop fl state_map cm [] acc = Inr acc"
| "states_loop fl state_map cm (entry # rest) acc =
     ebind (py_lookup state_map (fst entry)) (\<lambda>this_state_idx.
     let lm =
           (case map_of (snd entry) ''label'' of
              None \<Rightarrow> snd (snd acc)
            | Some l \<Rightarrow> (snd (snd acc))(this_state_idx \<mapsto> l))
     in
     ebind (dict_get (snd entry) ''trans'') (\<lambda>trans.
     ebind (py_items trans) (\<lambda>trans_items.
     ebind (trans_loop fl state_map this_state_idx trans_items (fst acc)) (\<lambda>tr.
     ebind (dict_get (snd entry) ''only'') (\<lambda>only.
     ebind (py_items only) (\<lambda>only_items.
     ebind (emis_loop fl cm this_state_idx only_items (fst (snd acc))) (\<lambda>emi.
     states_loop fl state_map cm rest (tr, emi, lm))))))))"

definition to_matrix_form ::
  "(string \<Rightarrow> real option) \<Rightarrow> string \<Rightarrow> (string \<times> (string \<times> pvalue) list) list
     \<Rightarrow> error + real list \<times> real list list \<times> real list list
           \<times> (char \<rightharpoonup> nat) \<times> (nat \<rightharpoonup> pvalue) \<times> (nat \<rightharpoonup> string)" where
  "to_matrix_form fl alphabet states0 =
     ebind (dict_get states0 ''begin'') (\<lambda>begin.
     let states = AList.delete ''begin'' states0;
         state_map = index_map (map fst states);
         cm = index_map alphabet;
         no_states = length states;
         initial0 = replicate no_states 0;
         transitions0 = zeros2 no_states no_states 0;
         emissions0 = zeros2 no_states (length alphabet) 0;
         nm = map_of (List.enumerate 0 (map fst states))
     in
     ebind (dict_get begin ''trans'') (\<lambda>begin_trans.
     ebind (py_items begin_trans) (\<lambda>begin_items.
     ebind (initial_loop fl state_map begin_items initial0) (\<lambda>initial1.
     ebind (states_loop fl state_map cm states (transitions0, emissions0, Map.empty)) (\<lambda>r.
     Inr (initial1, fst r, fst (snd r), cm, snd (snd r), nm))))))"

section \<open>The model parser\<close>


section \<open>Viterbi decoder\<close>

text \<open>
  Log-space scores: the values \<^verbatim>\<open>np.log\<close> produces from real probabilities and their sums.
  \<^verbatim>\<open>np.log(0)\<close> is \<^verbatim>\<open>-inf\<close>, \<^verbatim>\<open>np.log\<close> of a negative number is \<^verbatim>\<open>nan\<close>; no sum of such
  values is \<^verbatim>\<open>+inf\<close>.
\<close>

datatype score = NaN | NegInf | Fin real

definition np_log :: "real \<Rightarrow> score" where
  "np_log p = (if p < 0 then NaN else if p = 0 then NegInf else Fin (ln p))"

fun score_add :: "score \<Rightarrow> score \<Rightarrow> score" where
  "score_add NaN b = NaN"
| "score_add a NaN = NaN"
| "score_add NegInf b = NegInf"
| "score_add a NegInf = NegInf"
| "score_add (Fin a) (Fin b) = Fin (a + b)"

text \<open>\<open>score_gt a b\<close> is \<^verbatim>\<open>a > b\<close>, \<open>score_le a b\<close> is \<^verbatim>\<open>a <= b\<close>; both are false on \<^verbatim>\<open>nan\<close>.\<close>

fun score_gt :: "score \<Rightarrow> score \<Rightarrow> bool" where
  "score_gt (Fin a) (Fin b) = (b < a)"
| "score_gt (Fin a) NegInf = True"
| "score_gt a b = False"

fun score_le :: "score \<Rightarrow> score \<Rightarrow> bool" where
  "score_le (Fin a) (Fin b) = (a \<le> b)"
| "score_le NegInf (Fin b) = True"
| "score_le NegInf NegInf = True"
| "score_le a b = False"

text \<open>The base case: the loop \<^verbatim>\<open>for i in range(no_states): M[0, i] = ...\<close>.\<close>

fun base_loop ::
  "score list \<Rightarrow> score list list \<Rightarrow> (char \<rightharpoonup> nat) \<Rightarrow> string \<Rightarrow> nat list
     \<Rightarrow> score list list \<Rightarrow> error + score list list" where
  "base_loop ini emi cm sequence [] M = Inr M"
| "base_loop ini emi cm sequence (i # is) M =
     ebind (py_index ini i) (\<lambda>a.
     ebind (py_index sequence 0) (\<lambda>ch.
     ebind (py_lookup cm ch) (\<lambda>c.
     ebind (get2 emi i c) (\<lambda>e.
     ebind (put2 M 0 i (score_add a e)) (\<lambda>M'.
     base_loop ini emi cm sequence is M')))))"

text \<open>
  The innermost loop \<^verbatim>\<open>for k in range(no_states)\<close>; the accumulator is
  \<^verbatim>\<open>(max_state, max_state_prob)\<close>.
\<close>

fun k_loop ::
  "score list list \<Rightarrow> score list list \<Rightarrow> nat \<Rightarrow> nat \<Rightarrow> nat list \<Rightarrow> nat \<times> score
     \<Rightarrow> error + nat \<times> score" where
  "k_loop M tr i j [] acc = Inr acc"
| "k_loop M tr i j (k # ks) acc =
     ebind (get2 M (i - 1) k) (\<lambda>a.
     ebind (get2 tr k j) (\<lambda>t.
       let prob = score_add a t in
       k_loop M tr i j ks (if score_gt prob (snd acc) then (k, prob) else acc)))"

text \<open>
  The loop \<^verbatim>\<open>for j in range(no_states)\<close> of row \<open>i\<close>. \<^verbatim>\<open>P\<close> is an array of floats:
  the assignment \<^verbatim>\<open>P[i, j] = max_state\<close> stores the float of the index.
\<close>

fun j_loop ::
  "score list list \<Rightarrow> score list list \<Rightarrow> (char \<rightharpoonup> nat) \<Rightarrow> string \<Rightarrow> nat \<Rightarrow> nat \<Rightarrow> nat list
     \<Rightarrow> score list list \<times> real list list \<Rightarrow> error + score list list \<times> real list list" where
  "j_loop tr emi cm sequence no_states i [] MP = Inr MP"
| "j_loop tr emi cm sequence no_states i (j # js) MP =
     ebind (k_loop (fst MP) tr i j [0..<no_states] (0, NegInf)) (\<lambda>acc.
     ebind (py_index sequence i) (\<lambda>ch.
     ebind (py_lookup cm ch) (\<lambda>c.
     ebind (get2 emi j c) (\<lambda>e.
     ebind (put2 (fst MP) i j (score_add (snd acc) e)) (\<lambda>M'.
     ebind (put2 (snd MP) i j (real (fst acc))) (\<lambda>P'.
     j_loop tr emi cm sequence no_states i js (M', P')))))))"

text \<open>The loop \<^verbatim>\<open>for i in range(1, no_observations)\<close>.\<close>

fun i_loop ::
  "score list list \<Rightarrow> score list list \<Rightarrow> (char \<rightharpoonup> nat) \<Rightarrow> string \<Rightarrow> nat \<Rightarrow> nat list
     \<Rightarrow> score list list \<times> real list list \<Rightarrow> error + score list list \<times> real list list" where
  "i_loop tr emi cm sequence no_states [] MP = Inr MP"
| "i_loop tr emi cm sequence no_states (i # is) MP =
     ebind (j_loop tr emi cm sequence no_states i [0..<no_states] MP)
       (i_loop tr emi cm sequence no_states is)"

text \<open>
  \<^verbatim>\<open>np.argmax\<close> of a one-dimensional array: the index of the first occurrence of the
  maximum, where a \<^verbatim>\<open>nan\<close> counts as the maximum; \<^verbatim>\<open>ValueError\<close> on an empty array.
  The scan keeps the current maximum \<open>mp\<close> and its index \<open>best\<close>.
\<close>

fun argmax_scan :: "score list \<Rightarrow> nat \<Rightarrow> nat \<Rightarrow> score \<Rightarrow> nat" where
  "argmax_scan [] i best mp = best"
| "argmax_scan (x # xs) i best mp =
     (if score_le x mp then argmax_scan xs (Suc i) best mp
      else if x = NaN then i
      else argmax_scan xs (Suc i) i x)"

definition np_argmax :: "score list \<Rightarrow> error + nat" where
  "np_argmax row =
     (case row of
        [] \<Rightarrow> Inl ValueError
      | x # xs \<Rightarrow> Inr (if x = NaN then 0 else argmax_scan xs 1 0 x))"

text \<open>\<^verbatim>\<open>M[-1,]\<close>: the last row.\<close>

definition last_row :: "'a list list \<Rightarrow> error + 'a list" where
  "last_row M = (if M = [] then Inl IndexError else Inr (last M))"

text \<open>
  The value of \<^verbatim>\<open>next_state\<close>: the integer that \<^verbatim>\<open>np.argmax\<close> returns, or a float read
  from \<^verbatim>\<open>P\<close>.
\<close>

datatype np_number = NpInt nat | NpFloat real

text \<open>
  \<^verbatim>\<open>label_map[next_state]\<close>: the keys of \<^verbatim>\<open>label_map\<close> are integers, and a float is a key
  of the dictionary when it equals one of them (equal numbers have equal hashes).
\<close>

definition label_lookup :: "(nat \<rightharpoonup> pvalue) \<Rightarrow> np_number \<Rightarrow> error + pvalue" where
  "label_lookup lm s =
     (case s of
        NpInt k \<Rightarrow> py_lookup lm k
      | NpFloat x \<Rightarrow>
          if real (nat \<lfloor>x\<rfloor>) = x then py_lookup lm (nat \<lfloor>x\<rfloor>) else Inl KeyError)"

text \<open>
  \<^verbatim>\<open>P[i, next_state]\<close>: an integer indexes the array and the float stored there is read; a
  float is not a valid index, and numpy (1.12 and later) raises \<^verbatim>\<open>IndexError\<close>.
\<close>

definition read_P :: "real list list \<Rightarrow> nat \<Rightarrow> np_number \<Rightarrow> error + np_number" where
  "read_P P i s =
     (case s of
        NpInt k \<Rightarrow> ebind (get2 P i k) (\<lambda>x. Inr (NpFloat x))
      | NpFloat x \<Rightarrow> Inl IndexError)"

text \<open>The backtracking loop \<^verbatim>\<open>for i in range(no_observations - 1, -1, -1)\<close>.\<close>

fun backtrack_loop ::
  "(nat \<rightharpoonup> pvalue) \<Rightarrow> real list list \<Rightarrow> nat list \<Rightarrow> np_number \<Rightarrow> pvalue list
     \<Rightarrow> error + pvalue list" where
  "backtrack_loop lm P [] next_state backtracked = Inr backtracked"
| "backtrack_loop lm P (i # is) next_state backtracked =
     ebind (label_lookup lm next_state) (\<lambda>l.
     ebind (read_P P i next_state) (\<lambda>s.
     backtrack_loop lm P is s (backtracked @ [l])))"

text \<open>\<^verbatim>\<open>''.join(xs)\<close>: every element must be a string.\<close>

fun py_join :: "pvalue list \<Rightarrow> error + string" where
  "py_join [] = Inr []"
| "py_join (VStr s # vs) = ebind (py_join vs) (\<lambda>r. Inr (s @ r))"
| "py_join (v # vs) = Inl TypeError"

text \<open>
  \<open>optimal_path\<close> in two parts: the tables \<^verbatim>\<open>M\<close> and \<^verbatim>\<open>P\<close> as they stand when the
  backtracking starts, and the whole function.
\<close>

definition optimal_path_tables ::
  "string \<Rightarrow> model \<Rightarrow> error + score list list \<times> real list list" where
  "optimal_path_tables sequence m =
     (let ini = map np_log (initial m);
          tr = map (map np_log) (transitions m);
          emi = map (map np_log) (emissions m);
          no_observations = length sequence;
          no_states = length ini;
          M = zeros2 no_observations no_states (Fin 0);
          P = zeros2 no_observations no_states (0::real)
      in ebind (base_loop ini emi (char_map m) sequence [0..<no_states] M) (\<lambda>M'.
         i_loop tr emi (char_map m) sequence no_states [1..<no_observations] (M', P)))"

definition optimal_path :: "string \<Rightarrow> model \<Rightarrow> error + score list list \<times> string" where
  "optimal_path sequence m =
     ebind (optimal_path_tables sequence m) (\<lambda>MP.
     ebind (last_row (fst MP)) (\<lambda>row.
     ebind (np_argmax row) (\<lambda>next_state.
     ebind (backtrack_loop (label_map m) (snd MP) (rev [0..<length sequence])
              (NpInt next_state) [])
       (\<lambda>backtracked.
     ebind (py_join (rev backtracked)) (\<lambda>path.
     Inr (fst MP, path))))))"

text \<open>
  A call \<^verbatim>\<open>optimal_path(sequence, model)\<close> as a step on the caller's model object: the
  function binds the results of \<^verbatim>\<open>np.log\<close>, \<^verbatim>\<open>M\<close> and \<^verbatim>\<open>P\<close> to local names and assigns
  to no component of \<^verbatim>\<open>model\<close>, so the object after the call is the object before it.
\<close>

definition optimal_path_call ::
  "string \<Rightarrow> model \<Rightarrow> model \<times> (error + score list list \<times> string)" where
  "optimal_path_call sequence m = (m, optimal_path sequence m)"

section \<open>Path summarizer\<close>

text \<open>
  \<^verbatim>\<open>itertools.groupby(xs, key)\<close>: consecutive elements whose key equals the key of the
  first element of the group form one group.
\<close>

function groupby :: "('a \<Rightarrow> 'k) \<Rightarrow> 'a list \<Rightarrow> ('k \<times> 'a list) list" where
  "groupby key [] = []"
| "groupby key (x # xs) =
     (key x, x # takeWhile (\<lambda>y. key y = key x) xs)
       # groupby key (dropWhile (\<lambda>y. key y = key x) xs)"
  by pat_completeness auto
termination
  by (relation "measure (\<lambda>(key, xs). length xs)")
     (auto simp: length_dropWhile_le less_Suc_eq_le)

text \<open>
  \<^verbatim>\<open>min(group, key=...)\<close> and \<^verbatim>\<open>max(group, key=...)\<close>: the first element with the
  least (greatest) key; \<^verbatim>\<open>ValueError\<close> on an empty list.
\<close>

definition py_min :: "('a \<Rightarrow> 'k::linorder) \<Rightarrow> 'a list \<Rightarrow> error + 'a" where
  "py_min key xs =
     (case xs of
        [] \<Rightarrow> Inl ValueError
      | x # ys \<Rightarrow> Inr (foldl (\<lambda>b y. if key y < key b then y else b) x ys))"

definition py_max :: "('a \<Rightarrow> 'k::linorder) \<Rightarrow> 'a list \<Rightarrow> error + 'a" where
  "py_max key xs =
     (case xs of
        [] \<Rightarrow> Inl ValueError
      | x # ys \<Rightarrow> Inr (foldl (\<lambda>b y. if key b < key y then y else b) x ys))"

text \<open>
  The body of the \<^verbatim>\<open>for\<close> loop of \<^verbatim>\<open>summarize\<close>, for one \<^verbatim>\<open>(state, group)\<close> pair, and
  the generator as the list of the triples it yields.
\<close>

definition summarize_group :: "'l \<times> (nat \<times> 'l) list \<Rightarrow> error + (nat \<times> nat \<times> 'l)" where
  "summarize_group sg =
     (case sg of (state, grp) \<Rightarrow>
        ebind (py_min fst grp) (\<lambda>lo.
        ebind (py_max fst grp) (\<lambda>hi.
        Inr (fst lo, fst hi, state))))"

fun summarize_loop :: "('l \<times> (nat \<times> 'l) list) list \<Rightarrow> error + (nat \<times> nat \<times> 'l) list" where
  "summarize_loop [] = Inr []"
| "summarize_loop (sg # rest) =
     ebind (summarize_group sg) (\<lambda>t.
     ebind (summarize_loop rest) (\<lambda>ts. Inr (t # ts)))"

text \<open>
  The global names of the module. The statements at the top level bind the three imported
  modules and the functions. The block under \<^verbatim>\<open>if __name__ == '__main__'\<close> runs only when
  the file is the script: it binds \<^verbatim>\<open>itertools\<close> among others, before the loop that
  calls \<^verbatim>\<open>summarize\<close>.
\<close>

definition imported_names :: "string list" where
  "imported_names =
     [''collections'', ''re'', ''np'', ''_tokenize'', ''_strip_comments'', ''_parse_list'',
      ''_parse_map'', ''_parse_state'', ''_parse_header'', ''_normalize_states'',
      ''_to_matrix_form'', ''parse_model'', ''optimal_path'', ''summarize'']"

definition script_names :: "string list" where
  "script_names =
     imported_names @ [''sys'', ''itertools'', ''skbio'', ''pretty_names'', ''model_file'',
       ''sequence_file'', ''model'', ''record'', ''matrix'', ''path'']"

text \<open>Reading a global name: \<^verbatim>\<open>NameError\<close> when the module has not bound it.\<close>

definition py_global :: "string list \<Rightarrow> string \<Rightarrow> error + unit" where
  "py_global names x = (if x \<in> set names then Inr () else Inl NameError)"

text \<open>
  \<open>summarize\<close> in a module with the global names \<open>names\<close>: the list of the triples the
  generator yields, or the exception raised while it is consumed. The body starts by
  reading the name \<^verbatim>\<open>itertools\<close>.
\<close>

definition summarize :: "string list \<Rightarrow> 'l list \<Rightarrow> error + (nat \<times> nat \<times> 'l) list" where
  "summarize names path =
     ebind (py_global names ''itertools'') (\<lambda>_.
     summarize_loop (groupby snd (List.enumerate 0 path)))"

text \<open>
  A list of triples tiles a label sequence from position \<open>n\<close> on: each triple starts where
  the one before ended, covers a non-empty block of its own label, and the block after
  it starts with another label.
\<close>

fun tiles :: "nat \<Rightarrow> (nat \<times> nat \<times> 'l) list \<Rightarrow> 'l list \<Rightarrow> bool" where
  "tiles n [] xs \<longleftrightarrow> xs = []"
| "tiles n ((s, e, l) # rest) xs \<longleftrightarrow>
     s = n \<and> s \<le> e \<and>
     (\<exists>ys. xs = replicate (Suc e - s) l @ ys \<and> (ys \<noteq> [] \<longrightarrow> hd ys \<noteq> l) \<and> tiles (Suc e) rest ys)"

section \<open>Notions used to state the decoder's properties\<close>

text \<open>
  The shape of a model that \<^verbatim>\<open>_to_matrix_form\<close> builds from probabilities: \<open>transitions\<close>
  is square on the states of \<open>initial\<close>, \<open>emissions\<close> has a row per state and a column for
  every index of \<open>char_map\<close>, and no entry is negative.
\<close>

definition wf_model :: "model \<Rightarrow> bool" where
  "wf_model m \<longleftrightarrow>
     length (transitions m) = length (initial m)
   \<and> (\<forall>r\<in>set (transitions m). length r = length (initial m))
   \<and> length (emissions m) = length (initial m)
   \<and> (\<forall>r\<in>set (emissions m). \<forall>ch c. char_map m ch = Some c \<longrightarrow> c < length r)
   \<and> (\<forall>p\<in>set (initial m). 0 \<le> p)
   \<and> (\<forall>r\<in>set (transitions m). \<forall>p\<in>set r. 0 \<le> p)
   \<and> (\<forall>r\<in>set (emissions m). \<forall>p\<in>set r. 0 \<le> p)"

text \<open>
  The column of the \<open>t\<close>-th symbol, \<^verbatim>\<open>char_map[sequence[t]]\<close>, and the score
  \<^verbatim>\<open>M[t - 1, k] + transitions[k, j]\<close> of entering state \<open>j\<close> at position \<open>t\<close> from \<open>k\<close>.
\<close>

definition symbol_index :: "model \<Rightarrow> string \<Rightarrow> nat \<Rightarrow> nat" where
  "symbol_index m sequence t = the (char_map m (sequence ! t))"

definition candidate :: "model \<Rightarrow> score list list \<Rightarrow> nat \<Rightarrow> nat \<Rightarrow> nat \<Rightarrow> score" where
  "candidate m M t j k = score_add (M ! (t - 1) ! k) (np_log (transitions m ! k ! j))"

text \<open>
  The innermost loop without its index checks, as a fold over the predecessors.
\<close>

definition kstep :: "score list \<Rightarrow> score list list \<Rightarrow> nat \<Rightarrow> nat \<times> score \<Rightarrow> nat \<Rightarrow> nat \<times> score" where
  "kstep prev tr j acc k =
     (let prob = score_add (prev ! k) (tr ! k ! j)
      in if score_gt prob (snd acc) then (k, prob) else acc)"

definition kbest :: "score list \<Rightarrow> score list list \<Rightarrow> nat \<Rightarrow> nat \<Rightarrow> nat \<times> score" where
  "kbest prev tr j n = foldl (kstep prev tr j) (0, NegInf) [0..<n]"

section \<open>Example models\<close>

text \<open>
  Two states over the alphabet \<open>AB\<close>: the first emits only \<open>A\<close> and is the only start
  state; the second is absorbing.
\<close>

definition toy_model :: model where
  "toy_model =
     \<lparr> header = [(''alphabet'', ''AB'')],
       initial = [1, 0],
       transitions = [[1/2, 1/2], [0, 1]],
       emissions = [[1, 0], [1/2, 1/2]],
       char_map = [CHR ''A'' \<mapsto> 0, CHR ''B'' \<mapsto> 1],
       label_map = [0 \<mapsto> VStr ''i'', 1 \<mapsto> VStr ''o''],
       name_map = [0 \<mapsto> ''s1'', 1 \<mapsto> ''s2''] \<rparr>"

text \<open>Two states that no probability tells apart.\<close>

definition tie_model :: model where
  "tie_model =
     \<lparr> header = [(''alphabet'', ''AB'')],
       initial = [1/2, 1/2],
       transitions = [[1/2, 1/2], [1/2, 1/2]],
       emissions = [[1/2, 1/2], [1/2, 1/2]],
       char_map = [CHR ''A'' \<mapsto> 0, CHR ''B'' \<mapsto> 1],
       label_map = [0 \<mapsto> VStr ''i'', 1 \<mapsto> VStr ''o''],
       name_map = [0 \<mapsto> ''s1'', 1 \<mapsto> ''s2''] \<rparr>"

text \<open>
  A state \<open>Y\<close> tied to a state \<open>X\<close> whose keys are not in the order of the targets of \<open>Y\<close>,
  and a chain of ties listed from the dependent state to its ancestors.
\<close>

definition tied_states :: "(string \<times> (string \<times> pvalue) list) list" where
  "tied_states =
     [(''X'', [(''trans'', VMap [(''B'', 3/10), (''A'', 7/10)]),
               (''only'', VMap [(''a'', 1/4), (''b'', 3/4)])]),
      (''Y'', [(''trans'', VList [''A'', ''B'']),
               (''tied_trans'', VStr ''X''),
               (''tied_letter'', VStr ''X''),
               (''only'', VMap [(''c'', 1)])])]"

definition chain_states :: "(string \<times> (string \<times> pvalue) list) list" where
  "chain_states =
     [(''A'', [(''trans'', VList [''A'']), (''tied_trans'', VStr ''B'')]),
      (''B'', [(''trans'', VList [''A'']), (''tied_trans'', VStr ''C'')]),
      (''C'', [(''trans'', VMap [(''A'', 1)])])]"

text \<open>
  A model file with a comment line, the same file cut off inside its last state block, a
  file whose block \<open>s1\<close> lacks its closing brace and is followed by a complete block, and
  \<^verbatim>\<open>float\<close> on the numbers the files contain.
\<close>

definition example_float :: "string \<Rightarrow> real option" where
  "example_float s =
     (if s = ''1.0'' then Some 1 else if s = ''0.5'' then Some (1/2)
      else if s = ''0.0'' then Some 0 else None)"




section \<open>Notions used to state the matrix builder's properties\<close>

text \<open>
  The probabilities a state declares under a field (none when the field is no dictionary of
  floats), and the probability a dictionary gives a key, 0 for a key it does not have.
\<close>

definition declared :: "string \<Rightarrow> (string \<times> pvalue) list \<Rightarrow> (string \<times> real) list" where
  "declared field state = (case map_of state field of Some (VMap m) \<Rightarrow> m | _ \<Rightarrow> [])"

definition prob_of :: "('k \<times> real) list \<Rightarrow> 'k \<Rightarrow> real" where
  "prob_of m k = (case map_of m k of None \<Rightarrow> 0 | Some p \<Rightarrow> p)"

text \<open>
  A state dictionary that can be turned into matrices: \<^verbatim>\<open>begin\<close> and every other state carry
  a \<^verbatim>\<open>trans\<close> dictionary over the names of the other states, and every other state an
  \<^verbatim>\<open>only\<close> dictionary over symbols of the alphabet. Keys are distinct, as in every
  dictionary.
\<close>

definition matrix_ready :: "string \<Rightarrow> (string \<times> (string \<times> pvalue) list) list \<Rightarrow> bool" where
  "matrix_ready alphabet states0 \<longleftrightarrow>
     distinct (map fst states0)
   \<and> (\<exists>begin bt. map_of states0 ''begin'' = Some begin
         \<and> map_of begin ''trans'' = Some (VMap bt) \<and> distinct (map fst bt)
         \<and> (\<forall>k\<in>fst ` set bt. k \<in> fst ` set states0 \<and> k \<noteq> ''begin''))
   \<and> (\<forall>e\<in>set states0. fst e \<noteq> ''begin'' \<longrightarrow>
         (\<exists>t o'. map_of (snd e) ''trans'' = Some (VMap t) \<and> distinct (map fst t)
            \<and> (\<forall>k\<in>fst ` set t. k \<in> fst ` set states0 \<and> k \<noteq> ''begin'')
            \<and> map_of (snd e) ''only'' = Some (VMap o') \<and> distinct (map fst o')
            \<and> (\<forall>k\<in>fst ` set o'. \<exists>c. k = [c] \<and> c \<in> set alphabet)))"

text \<open>
  The loops over \<^verbatim>\<open>items()\<close> without their lookups' failures: the row after the
  assignments, for a lookup \<open>look\<close> of the column of a key.
\<close>

definition assigned :: "(string \<Rightarrow> nat option) \<Rightarrow> (string \<times> real) list \<Rightarrow> real list \<Rightarrow> real list" where
  "assigned look m row =
     foldl (\<lambda>r kv. case look (fst kv) of None \<Rightarrow> r | Some j \<Rightarrow> r[j := snd kv]) row m"

definition char_look :: "(char \<rightharpoonup> nat) \<Rightarrow> string \<Rightarrow> nat option" where
  "char_look cm k = (case k of [c] \<Rightarrow> cm c | _ \<Rightarrow> None)"

text \<open>A normalized state dictionary in which \<open>begin\<close> does not mention the state \<open>s2\<close>.\<close>

definition example_states :: "(string \<times> (string \<times> pvalue) list) list" where
  "example_states =
     [(''begin'', [(''trans'', VMap [(''s1'', 1)])]),
      (''s1'', [(''trans'', VMap [(''s1'', 1/2), (''s2'', 1/2)]),
                (''only'', VMap [(''A'', 1), (''B'', 0)]),
                (''label'', VStr ''i'')]),
      (''s2'', [(''trans'', VMap [(''s2'', 1)]),
                (''only'', VMap [(''A'', 1/2), (''B'', 1/2)]),
                (''label'', VStr ''o'')])]"


section \<open>Verification: error plumbing\<close>

lemma ebind_Inl [simp]: "ebind (Inl e) f = Inl e"
  by (simp add: ebind_def)

lemma ebind_Inr [simp]: "ebind (Inr x) f = f x"
  by (simp add: ebind_def)

lemma ebind_eq_Inr: "ebind r f = Inr y \<longleftrightarrow> (\<exists>x. r = Inr x \<and> f x = Inr y)"
  by (cases r) simp_all

lemma ebind_isl: "isl r \<Longrightarrow> isl (ebind r f)"
  by (cases r) simp_all

section \<open>Verification: path summarizer\<close>

lemma takeWhile_enumerate:
  "takeWhile (\<lambda>y. snd y = x) (List.enumerate n xs) = List.enumerate n (takeWhile (\<lambda>y. y = x) xs)"
  by (induction xs arbitrary: n) auto

lemma dropWhile_enumerate:
  "dropWhile (\<lambda>y. snd y = x) (List.enumerate n xs) =
     List.enumerate (n + length (takeWhile (\<lambda>y. y = x) xs)) (dropWhile (\<lambda>y. y = x) xs)"
  by (induction xs arbitrary: n) auto

lemma foldl_min_enumerate:
  "m < n \<Longrightarrow> foldl (\<lambda>b y. if fst y < fst b then y else b) (m, x) (List.enumerate n xs) = (m, x)"
  by (induction xs arbitrary: n) auto

lemma foldl_max_enumerate:
  "m < n \<Longrightarrow> fst (foldl (\<lambda>b y. if fst b < fst y then y else b) (m, x) (List.enumerate n xs))
     = (if xs = [] then m else n + length xs - 1)"
  by (induction xs arbitrary: n m x) auto

lemma summarize_group_enumerate:
  "summarize_group (l, (n, x) # List.enumerate (Suc n) xs) = Inr (n, n + length xs, l)"
  by (simp add: summarize_group_def py_min_def py_max_def foldl_min_enumerate foldl_max_enumerate)

lemma takeWhile_eq_replicate:
  "takeWhile (\<lambda>y. y = x) xs = replicate (length (takeWhile (\<lambda>y. y = x) xs)) x"
  by (induction xs) auto

lemma summarize_loop_tiles:
  "\<exists>segs. summarize_loop (groupby snd (List.enumerate n xs)) = Inr segs \<and> tiles n segs xs"
proof (induction "length xs" arbitrary: xs n rule: less_induct)
  case less
  show ?case
  proof (cases xs)
    case Nil
    then show ?thesis by simp
  next
    case (Cons x rest)
    let ?tk = "takeWhile (\<lambda>y. y = x) rest"
    let ?dk = "dropWhile (\<lambda>y. y = x) rest"
    have "length ?dk < length xs"
      using Cons by (simp add: length_dropWhile_le less_Suc_eq_le)
    from less[OF this, of "Suc n + length ?tk"]
    obtain segs where
      segs: "summarize_loop (groupby snd (List.enumerate (Suc n + length ?tk) ?dk)) = Inr segs"
      and t: "tiles (Suc n + length ?tk) segs ?dk" by blast
    have hd: "?dk \<noteq> [] \<longrightarrow> hd ?dk \<noteq> x"
      using hd_dropWhile[of "\<lambda>y. y = x" rest] by auto
    have split: "rest = replicate (length ?tk) x @ ?dk"
      using takeWhile_dropWhile_id[of "\<lambda>y. y = x" rest] takeWhile_eq_replicate[of x rest]
      by metis
    have "summarize_loop (groupby snd (List.enumerate n xs)) = Inr ((n, n + length ?tk, x) # segs)"
      using segs Cons
      by (simp add: takeWhile_enumerate dropWhile_enumerate summarize_group_enumerate)
    moreover have "tiles n ((n, n + length ?tk, x) # segs) xs"
      using t hd split Cons by (auto simp: Suc_diff_le intro!: exI[of _ ?dk])
    ultimately show ?thesis by blast
  qed
qed

lemma tiles_concat:
  "tiles n segs xs \<Longrightarrow> concat (map (\<lambda>(s, e, l). replicate (Suc e - s) l) segs) = xs"
  by (induction segs arbitrary: n xs) auto

lemma tiles_hd:
  "tiles n ((s, e, l) # rest) xs \<Longrightarrow> xs \<noteq> [] \<and> hd xs = l \<and> s = n"
  by (auto simp: Suc_diff_le)

lemma tiles_index:
  "tiles n segs xs \<Longrightarrow> i < length segs \<Longrightarrow>
     (case segs ! i of (s, e, l) \<Rightarrow>
        s \<le> e \<and> s = (if i = 0 then n else Suc (fst (snd (segs ! (i - 1)))))
        \<and> (0 < i \<longrightarrow> snd (snd (segs ! (i - 1))) \<noteq> l))"
proof (induction segs arbitrary: n xs i)
  case Nil
  then show ?case by simp
next
  case (Cons seg rest)
  obtain s e l where seg: "seg = (s, e, l)" by (cases seg) auto
  from Cons.prems(1) seg obtain ys where
    s: "s = n" "s \<le> e" and ys: "ys \<noteq> [] \<longrightarrow> hd ys \<noteq> l" and t: "tiles (Suc e) rest ys"
    by auto
  show ?case
  proof (cases i)
    case 0
    then show ?thesis using s seg by simp
  next
    case (Suc j)
    then have j: "j < length rest" using Cons.prems(2) by simp
    note ih = Cons.IH[OF t j]
    show ?thesis
    proof (cases j)
      case 0
      then obtain s' e' l' rest' where r: "rest = (s', e', l') # rest'"
        using j by (cases rest) auto
      from tiles_hd[OF t[unfolded r]] ys have "l \<noteq> l'" by auto
      then show ?thesis using ih Suc 0 seg r by auto
    next
      case (Suc j')
      then show ?thesis using ih \<open>i = Suc j\<close> by (auto split: prod.splits)
    qed
  qed
qed

lemma summarize_bound:
  "''itertools'' \<in> set names \<Longrightarrow>
     summarize names path = summarize_loop (groupby snd (List.enumerate 0 path))"
  by (simp add: summarize_def py_global_def)

lemma summarize_unbound:
  "''itertools'' \<notin> set names \<Longrightarrow> summarize names path = Inl NameError"
  by (simp add: summarize_def py_global_def)

lemma itertools_script: "''itertools'' \<in> set script_names"
  by (simp add: script_names_def)

lemma itertools_imported: "''itertools'' \<notin> set imported_names"
  by (simp add: imported_names_def)

lemma summarize_example:
  "summarize script_names ''iiiMMMoo''
     = Inr [(0, 2, CHR ''i''), (3, 5, CHR ''M''), (6, 7, CHR ''o'')]"
  unfolding summarize_bound[OF itertools_script]
  by (simp add: summarize_group_def py_min_def py_max_def enumerate_eq_zip upt_rec)

text \<open>
  Claim C8. In a module that has bound the name \<^verbatim>\<open>itertools\<close>, as the script has when it
  calls \<open>summarize\<close>, \<open>summarize\<close> raises nothing for any label sequence \<open>path\<close> and yields
  the maximal runs of equal labels as triples \<open>(start, end, label)\<close> with inclusive
  indices, in path order: laying the blocks \<open>label\<close> repeated \<open>end - start + 1\<close> times one
  after the other gives the path back; the first triple starts at 0 and every other
  triple starts one past the end of the triple before it; no triple is empty; and two
  neighbouring triples carry different labels (so no run can be extended); \<open>''iiiMMMoo''\<close>
  yields \<open>[(0,2,i), (3,5,M), (6,7,o)]\<close>. In a module that has not bound the name, as the
  imported module has not, \<open>summarize\<close> raises \<^verbatim>\<open>NameError\<close> for every path, also for
  \<open>''iiiMMMoo''\<close>, and yields nothing.
\<close>

theorem summarize_maximal_runs:
  "(''itertools'' \<in> set names \<longrightarrow>
      (\<exists>segs. summarize names path = Inr segs
        \<and> concat (map (\<lambda>(s, e, l). replicate (Suc e - s) l) segs) = path
        \<and> (\<forall>i<length segs. case segs ! i of (s, e, l) \<Rightarrow>
              s \<le> e \<and> s = (if i = 0 then 0 else Suc (fst (snd (segs ! (i - 1)))))
              \<and> (0 < i \<longrightarrow> snd (snd (segs ! (i - 1))) \<noteq> l))))
   \<and> (''itertools'' \<notin> set names \<longrightarrow> summarize names path = Inl NameError)
   \<and> summarize script_names ''iiiMMMoo''
        = Inr [(0, 2, CHR ''i''), (3, 5, CHR ''M''), (6, 7, CHR ''o'')]
   \<and> summarize imported_names path = Inl NameError"
proof -
  have a: "''itertools'' \<in> set names \<longrightarrow>
      (\<exists>segs. summarize names path = Inr segs
        \<and> concat (map (\<lambda>(s, e, l). replicate (Suc e - s) l) segs) = path
        \<and> (\<forall>i<length segs. case segs ! i of (s, e, l) \<Rightarrow>
              s \<le> e \<and> s = (if i = 0 then 0 else Suc (fst (snd (segs ! (i - 1)))))
              \<and> (0 < i \<longrightarrow> snd (snd (segs ! (i - 1))) \<noteq> l)))"
  proof
    assume b: "''itertools'' \<in> set names"
    obtain segs where r: "summarize names path = Inr segs" and t: "tiles 0 segs path"
      using summarize_loop_tiles[of 0 path] unfolding summarize_bound[OF b] by auto
    show "\<exists>segs. summarize names path = Inr segs
        \<and> concat (map (\<lambda>(s, e, l). replicate (Suc e - s) l) segs) = path
        \<and> (\<forall>i<length segs. case segs ! i of (s, e, l) \<Rightarrow>
              s \<le> e \<and> s = (if i = 0 then 0 else Suc (fst (snd (segs ! (i - 1)))))
              \<and> (0 < i \<longrightarrow> snd (snd (segs ! (i - 1))) \<noteq> l))"
      using r tiles_concat[OF t] tiles_index[OF t] by blast
  qed
  have c: "''itertools'' \<notin> set names \<longrightarrow> summarize names path = Inl NameError"
    using summarize_unbound by blast
  have d: "summarize imported_names path = Inl NameError"
    by (rule summarize_unbound[OF itertools_imported])
  show ?thesis by (intro conjI) (rule a c summarize_example d)+
qed

theorem summarize_maximal_runs_witness:
  "''itertools'' \<in> set script_names \<and> ''itertools'' \<notin> set imported_names
   \<and> (\<exists>segs. segs = [(0, 2, CHR ''i''), (3, 5, CHR ''M''), (6, 7, CHR ''o'')]
        \<and> summarize script_names ''iiiMMMoo'' = Inr segs
        \<and> concat (map (\<lambda>(s, e, l). replicate (Suc e - s) l) segs) = ''iiiMMMoo''
        \<and> (\<forall>i<length segs. case segs ! i of (s, e, l) \<Rightarrow>
              s \<le> e \<and> s = (if i = 0 then 0 else Suc (fst (snd (segs ! (i - 1)))))
              \<and> (0 < i \<longrightarrow> snd (snd (segs ! (i - 1))) \<noteq> l)))
   \<and> summarize imported_names ''iiiMMMoo'' = Inl NameError"
proof -
  note inst = summarize_maximal_runs [of script_names "''iiiMMMoo''"]
  note run = inst[THEN conjunct1]
    and d = inst[THEN conjunct2, THEN conjunct2, THEN conjunct1]
    and e = inst[THEN conjunct2, THEN conjunct2, THEN conjunct2]
  from run[rule_format, OF itertools_script] obtain segs where
    a: "summarize script_names ''iiiMMMoo'' = Inr segs"
    and b: "concat (map (\<lambda>(s, e, l). replicate (Suc e - s) l) segs) = ''iiiMMMoo''"
    and c: "\<forall>i<length segs. case segs ! i of (s, e, l) \<Rightarrow>
           s \<le> e \<and> s = (if i = 0 then 0 else Suc (fst (snd (segs ! (i - 1)))))
           \<and> (0 < i \<longrightarrow> snd (snd (segs ! (i - 1))) \<noteq> l)"
    by (elim exE conjE) (rule that; assumption)
  from a d have s: "segs = [(0, 2, CHR ''i''), (3, 5, CHR ''M''), (6, 7, CHR ''o'')]"
    by simp
  show ?thesis
    by (intro conjI exI[of _ segs]) (rule itertools_script itertools_imported s a b c e)+
qed

section \<open>Verification: decoder failures\<close>

lemma isl_ebind_all: "(\<And>x. isl (f x)) \<Longrightarrow> isl (ebind r f)"
  by (cases r) auto

lemma optimal_path_tables_empty:
  "optimal_path_tables [] m = (if initial m = [] then Inr ([], []) else Inl IndexError)"
proof (cases "initial m")
  case Nil
  then show ?thesis by (simp add: optimal_path_tables_def zeros2_def)
next
  case (Cons a as)
  then have "[0..<length (initial m)] = 0 # [Suc 0..<length (initial m)]"
    by (intro upt_conv_Cons) simp
  then show ?thesis
    using Cons by (simp add: optimal_path_tables_def Let_def py_index_def)
qed

text \<open>
  Claim C9. For every model, \<open>optimal_path\<close> on the empty sequence raises \<^verbatim>\<open>IndexError\<close>:
  with at least one state the base-case loop reads \<^verbatim>\<open>sequence[0]\<close>; with no state the
  loops do nothing and \<^verbatim>\<open>M[-1,]\<close> indexes an array without rows. No empty path and no
  empty score matrix is returned.
\<close>

theorem optimal_path_empty_sequence: "optimal_path [] m = Inl IndexError"
  by (simp add: optimal_path_def optimal_path_tables_empty last_row_def)

lemma base_loop_unknown_symbol:
  "sequence \<noteq> [] \<Longrightarrow> cm (sequence ! 0) = None \<Longrightarrow> isl (base_loop ini emi cm sequence (i # is) M)"
  by (cases "py_index ini i") (simp_all add: py_index_def py_lookup_def)

lemma j_loop_unknown_symbol:
  "cm (sequence ! i) = None \<Longrightarrow> isl (j_loop tr emi cm sequence n i (j # js) MP)"
  by (cases "k_loop (fst MP) tr i j [0..<n] (0, NegInf)") (simp_all add: py_index_def py_lookup_def)

lemma i_loop_unknown_symbol:
  "0 < n \<Longrightarrow> i \<in> set is \<Longrightarrow> cm (sequence ! i) = None
     \<Longrightarrow> isl (i_loop tr emi cm sequence n is MP)"
proof (induction "is" arbitrary: MP)
  case Nil
  then show ?case by simp
next
  case (Cons a as)
  from \<open>0 < n\<close> have js: "[0..<n] = 0 # [Suc 0..<n]" by (intro upt_conv_Cons)
  show ?case
  proof (cases "j_loop tr emi cm sequence n a [0..<n] MP")
    case (Inl e)
    then show ?thesis by simp
  next
    case (Inr MP')
    have "a \<noteq> i"
    proof
      assume "a = i"
      then have "isl (j_loop tr emi cm sequence n a [0..<n] MP)"
        using j_loop_unknown_symbol[of cm sequence i tr emi n 0 "[Suc 0..<n]" MP] Cons.prems(3) js
        by simp
      with Inr show False by simp
    qed
    then have "i \<in> set as" using Cons.prems(2) by simp
    from Cons.IH[OF Cons.prems(1) this Cons.prems(3)] Inr show ?thesis by simp
  qed
qed

lemma i_loop_no_states: "i_loop tr emi cm sequence 0 is MP = Inr MP"
  by (induction "is" arbitrary: MP) simp_all

text \<open>
  Claim C6. For every model and every sequence with at least one symbol that is not a key
  of \<open>char_map\<close>, \<open>optimal_path\<close> raises an error and returns no path, and the model object
  after the call is the model before it.
\<close>

theorem optimal_path_unknown_symbol:
  assumes "\<exists>c \<in> set sequence. char_map m c = None"
  shows "(\<exists>e. optimal_path sequence m = Inl e) \<and> fst (optimal_path_call sequence m) = m"
proof -
  from assms obtain p where p: "p < length sequence" "char_map m (sequence ! p) = None"
    by (auto simp: in_set_conv_nth)
  then have ne: "sequence \<noteq> []" by auto
  let ?n = "length (initial m)"
  have "isl (optimal_path sequence m)"
  proof (cases "?n = 0")
    case True
    then have "optimal_path_tables sequence m
        = Inr (zeros2 (length sequence) 0 (Fin 0), zeros2 (length sequence) 0 0)"
      by (simp add: optimal_path_tables_def Let_def i_loop_no_states)
    moreover have "last_row (zeros2 (length sequence) 0 (Fin 0)) = Inr []"
      using ne by (simp add: last_row_def zeros2_def)
    ultimately show ?thesis
      by (simp add: optimal_path_def np_argmax_def)
  next
    case False
    then have n: "0 < ?n" by simp
    then have js: "[0..<?n] = 0 # [Suc 0..<?n]" by (intro upt_conv_Cons)
    have "isl (optimal_path_tables sequence m)"
    proof (cases "p = 0")
      case True
      with p have "char_map m (sequence ! 0) = None" by simp
      with ne js show ?thesis
        using base_loop_unknown_symbol[where cm="char_map m" and sequence=sequence]
        by (simp add: optimal_path_tables_def Let_def ebind_isl del: base_loop.simps)
    next
      case False
      with p have "p \<in> set [Suc 0..<length sequence]" by simp
      with n p(2) have il: "\<And>tr emi MP.
          isl (i_loop tr emi (char_map m) sequence ?n [Suc 0..<length sequence] MP)"
        using i_loop_unknown_symbol[where cm="char_map m" and sequence=sequence and i=p
            and n="length (initial m)"]
        by blast
      show ?thesis
        unfolding optimal_path_tables_def Let_def
        by (rule isl_ebind_all) (simp add: il)
    qed
    then show ?thesis by (simp add: optimal_path_def ebind_isl)
  qed
  then show ?thesis by (auto simp: isl_def optimal_path_call_def)
qed

theorem optimal_path_unknown_symbol_witness:
  "(\<exists>c \<in> set ''AC''. char_map toy_model c = None)
   \<and> (\<exists>e. optimal_path ''AC'' toy_model = Inl e)
   \<and> fst (optimal_path_call ''AC'' toy_model) = toy_model"
proof -
  have h: "\<exists>c \<in> set ''AC''. char_map toy_model c = None"
    by (simp add: toy_model_def)
  from optimal_path_unknown_symbol [OF h] h show ?thesis by blast
qed

section \<open>Verification: the score order\<close>

lemma score_le_refl: "a \<noteq> NaN \<Longrightarrow> score_le a a"
  by (cases a) auto

lemma score_gt_or_le: "a \<noteq> NaN \<Longrightarrow> b \<noteq> NaN \<Longrightarrow> score_gt a b \<or> score_le a b"
  by (cases a; cases b) auto

lemma score_le_gt_trans: "score_le a b \<Longrightarrow> score_gt c b \<Longrightarrow> score_gt c a"
  by (cases a; cases b; cases c) auto

lemma score_gt_imp_le: "score_gt c b \<Longrightarrow> score_le b c"
  by (cases b; cases c) auto

lemma score_le_NegInf: "score_le a NegInf \<Longrightarrow> a = NegInf"
  by (cases a) auto

lemma score_add_not_NaN: "a \<noteq> NaN \<Longrightarrow> b \<noteq> NaN \<Longrightarrow> score_add a b \<noteq> NaN"
  by (cases a; cases b) auto

lemma np_log_not_NaN: "0 \<le> p \<Longrightarrow> np_log p \<noteq> NaN"
  by (simp add: np_log_def)

lemma score_not_le_gt: "a \<noteq> NaN \<Longrightarrow> b \<noteq> NaN \<Longrightarrow> \<not> score_le a b \<Longrightarrow> score_gt a b"
  by (cases a; cases b) auto

lemma score_gt_irrefl: "\<not> score_gt a a"
  by (cases a) auto

section \<open>Verification: the loops of the decoder\<close>

lemma k_loop_foldl:
  assumes "i - 1 < length M" "\<forall>k \<in> set ks. k < length (M ! (i - 1)) \<and> k < length tr \<and> j < length (tr ! k)"
  shows "k_loop M tr i j ks acc = Inr (foldl (kstep (M ! (i - 1)) tr j) acc ks)"
  using assms
  by (induction ks arbitrary: acc) (simp_all add: get2_def kstep_def Let_def)

lemma kbest_invariant:
  assumes "\<forall>k<n. score_add (prev ! k) (tr ! k ! j) \<noteq> NaN" "m \<le> n"
  shows "case foldl (kstep prev tr j) (0, NegInf) [0..<m] of (a, p) \<Rightarrow>
           p \<noteq> NaN \<and> (\<forall>k<m. score_le (score_add (prev ! k) (tr ! k ! j)) p)
           \<and> ((p = NegInf \<and> a = 0)
              \<or> (a < m \<and> p = score_add (prev ! a) (tr ! a ! j)
                  \<and> (\<forall>k<a. score_gt p (score_add (prev ! k) (tr ! k ! j)))))"
  using assms(2)
proof (induction m)
  case 0
  then show ?case by simp
next
  case (Suc m)
  obtain a p where ap: "foldl (kstep prev tr j) (0, NegInf) [0..<m] = (a, p)"
    by (cases "foldl (kstep prev tr j) (0, NegInf) [0..<m]") auto
  let ?c = "\<lambda>k. score_add (prev ! k) (tr ! k ! j)"
  from Suc ap have inv: "p \<noteq> NaN" "\<forall>k<m. score_le (?c k) p"
    "(p = NegInf \<and> a = 0) \<or> (a < m \<and> p = ?c a \<and> (\<forall>k<a. score_gt p (?c k)))"
    by auto
  have cm: "?c m \<noteq> NaN" using assms(1) Suc.prems by simp
  show ?case
  proof (cases "score_gt (?c m) p")
    case True
    then have step: "foldl (kstep prev tr j) (0, NegInf) [0..<Suc m] = (m, ?c m)"
      using ap by (simp add: kstep_def Let_def)
    have "\<forall>k<m. score_gt (?c m) (?c k)"
      using inv(2) True score_le_gt_trans by blast
    then have "\<forall>k<Suc m. score_le (?c k) (?c m)"
      using score_gt_imp_le score_le_refl[OF cm] less_Suc_eq by metis
    with \<open>\<forall>k<m. score_gt (?c m) (?c k)\<close> cm show ?thesis
      unfolding step by simp
  next
    case False
    then have step: "foldl (kstep prev tr j) (0, NegInf) [0..<Suc m] = (a, p)"
      using ap by (simp add: kstep_def Let_def)
    from False have "score_le (?c m) p"
      using score_gt_or_le[OF cm inv(1)] by simp
    with inv have "\<forall>k<Suc m. score_le (?c k) p"
      using less_Suc_eq by metis
    with inv show ?thesis unfolding step by auto
  qed
qed

lemma kbest_spec:
  assumes "\<forall>k<n. score_add (prev ! k) (tr ! k ! j) \<noteq> NaN" "0 < n"
  shows "fst (kbest prev tr j n) < n"
    and "snd (kbest prev tr j n)
          = score_add (prev ! fst (kbest prev tr j n)) (tr ! fst (kbest prev tr j n) ! j)"
    and "\<forall>k<n. score_le (score_add (prev ! k) (tr ! k ! j)) (snd (kbest prev tr j n))"
    and "\<forall>k<fst (kbest prev tr j n). score_gt (snd (kbest prev tr j n)) (score_add (prev ! k) (tr ! k ! j))"
    and "snd (kbest prev tr j n) \<noteq> NaN"
proof -
  obtain a p where ap: "kbest prev tr j n = (a, p)" by (cases "kbest prev tr j n") auto
  let ?c = "\<lambda>k. score_add (prev ! k) (tr ! k ! j)"
  from kbest_invariant[OF assms(1) order_refl] ap
  have inv: "p \<noteq> NaN" "\<forall>k<n. score_le (?c k) p"
    "(p = NegInf \<and> a = 0) \<or> (a < n \<and> p = ?c a \<and> (\<forall>k<a. score_gt p (?c k)))"
    by (auto simp: kbest_def)
  have main: "a < n \<and> p = ?c a \<and> (\<forall>k<a. score_gt p (?c k))"
  proof (cases "p = NegInf \<and> a = 0")
    case True
    then have "?c 0 = NegInf" using inv(2) assms(2) score_le_NegInf by blast
    with True assms(2) show ?thesis by simp
  next
    case False
    with inv(3) show ?thesis by blast
  qed
  show "fst (kbest prev tr j n) < n" using main ap by simp
  show "snd (kbest prev tr j n)
          = score_add (prev ! fst (kbest prev tr j n)) (tr ! fst (kbest prev tr j n) ! j)"
    using main ap by simp
  show "\<forall>k<n. score_le (score_add (prev ! k) (tr ! k ! j)) (snd (kbest prev tr j n))"
    using inv(2) ap by simp
  show "\<forall>k<fst (kbest prev tr j n). score_gt (snd (kbest prev tr j n)) (score_add (prev ! k) (tr ! k ! j))"
    using main unfolding ap by (metis fst_conv snd_conv)
  show "snd (kbest prev tr j n) \<noteq> NaN" using inv(1) ap by simp
qed

lemma base_loop_spec:
  assumes "0 < length M" "sequence \<noteq> []" "cm (sequence ! 0) = Some c"
    "\<forall>i\<in>set is. i < length ini \<and> i < length emi \<and> c < length (emi ! i) \<and> i < length (M ! 0)"
  shows "\<exists>M'. base_loop ini emi cm sequence is M = Inr M' \<and> length M' = length M
           \<and> (\<forall>r. 0 < r \<longrightarrow> M' ! r = M ! r) \<and> length (M' ! 0) = length (M ! 0)
           \<and> (\<forall>s<length (M ! 0). M' ! 0 ! s =
                 (if s \<in> set is then score_add (ini ! s) (emi ! s ! c) else M ! 0 ! s))"
  using assms(1,4)
proof (induction "is" arbitrary: M)
  case Nil
  then show ?case by simp
next
  case (Cons i "is")
  let ?M1 = "M[0 := (M ! 0)[i := score_add (ini ! i) (emi ! i ! c)]]"
  have step: "base_loop ini emi cm sequence (i # is) M = base_loop ini emi cm sequence is ?M1"
    using Cons.prems assms(2,3) by (simp add: py_index_def py_lookup_def get2_def put2_def)
  have len1: "0 < length ?M1" "length (?M1 ! 0) = length (M ! 0)"
    using Cons.prems by simp_all
  have "\<forall>i\<in>set is. i < length ini \<and> i < length emi \<and> c < length (emi ! i) \<and> i < length (?M1 ! 0)"
    using Cons.prems by simp
  from Cons.IH[OF len1(1) this] obtain M' where
    M': "base_loop ini emi cm sequence is ?M1 = Inr M'" "length M' = length ?M1"
      "\<forall>r. 0 < r \<longrightarrow> M' ! r = ?M1 ! r" "length (M' ! 0) = length (?M1 ! 0)"
      "\<forall>s<length (?M1 ! 0). M' ! 0 ! s =
          (if s \<in> set is then score_add (ini ! s) (emi ! s ! c) else ?M1 ! 0 ! s)"
    by blast
  have "\<forall>s<length (M ! 0). M' ! 0 ! s =
          (if s \<in> set (i # is) then score_add (ini ! s) (emi ! s ! c) else M ! 0 ! s)"
    using M'(5) Cons.prems(1) by (auto simp: nth_list_update)
  moreover have "\<forall>r. 0 < r \<longrightarrow> M' ! r = M ! r" using M'(3) by simp
  ultimately show ?case using step M'(1,2,4) len1 by simp
qed

lemma j_loop_spec:
  assumes "0 < i" "i < length sequence" "cm (sequence ! i) = Some c"
    "length tr = n" "\<forall>r\<in>set tr. length r = n"
  shows "i < length M \<Longrightarrow> i < length P \<Longrightarrow> length (M ! (i - 1)) = n \<Longrightarrow>
    \<forall>j\<in>set js. j < n \<and> j < length emi \<and> c < length (emi ! j) \<and> j < length (M ! i) \<and> j < length (P ! i) \<Longrightarrow>
    \<exists>M' P'. j_loop tr emi cm sequence n i js (M, P) = Inr (M', P')
       \<and> length M' = length M \<and> length P' = length P
       \<and> (\<forall>r. r \<noteq> i \<longrightarrow> M' ! r = M ! r \<and> P' ! r = P ! r)
       \<and> length (M' ! i) = length (M ! i) \<and> length (P' ! i) = length (P ! i)
       \<and> (\<forall>j<length (M ! i). M' ! i ! j =
             (if j \<in> set js then score_add (snd (kbest (M ! (i - 1)) tr j n)) (emi ! j ! c)
              else M ! i ! j))
       \<and> (\<forall>j<length (P ! i). P' ! i ! j =
             (if j \<in> set js then real (fst (kbest (M ! (i - 1)) tr j n)) else P ! i ! j))"
proof (induction js arbitrary: M P)
  case Nil
  then show ?case by simp
next
  case (Cons j js)
  let ?kb = "kbest (M ! (i - 1)) tr j n"
  let ?M1 = "M[i := (M ! i)[j := score_add (snd ?kb) (emi ! j ! c)]]"
  let ?P1 = "P[i := (P ! i)[j := real (fst ?kb)]]"
  have jn: "j < n" using Cons.prems by simp
  have "k_loop M tr i j [0..<n] (0, NegInf) = Inr ?kb"
    unfolding kbest_def
    using Cons.prems(1,3) assms(1,4,5) jn
    by (intro k_loop_foldl) auto
  then have step: "j_loop tr emi cm sequence n i (j # js) (M, P)
      = j_loop tr emi cm sequence n i js (?M1, ?P1)"
    using Cons.prems assms(2,3) by (simp add: py_index_def py_lookup_def get2_def put2_def)
  have prev: "?M1 ! (i - 1) = M ! (i - 1)" using assms(1) by simp
  have p1: "i < length ?M1" "i < length ?P1" "length (?M1 ! (i - 1)) = n"
    using Cons.prems assms(1) by simp_all
  have p2: "\<forall>j\<in>set js. j < n \<and> j < length emi \<and> c < length (emi ! j)
       \<and> j < length (?M1 ! i) \<and> j < length (?P1 ! i)"
    using Cons.prems by simp
  from Cons.IH[OF p1 p2] obtain M' P' where
    r: "j_loop tr emi cm sequence n i js (?M1, ?P1) = Inr (M', P')"
      "length M' = length ?M1" "length P' = length ?P1"
      "\<forall>r. r \<noteq> i \<longrightarrow> M' ! r = ?M1 ! r \<and> P' ! r = ?P1 ! r"
      "length (M' ! i) = length (?M1 ! i)" "length (P' ! i) = length (?P1 ! i)"
      "\<forall>j<length (?M1 ! i). M' ! i ! j =
             (if j \<in> set js then score_add (snd (kbest (?M1 ! (i - 1)) tr j n)) (emi ! j ! c)
              else ?M1 ! i ! j)"
      "\<forall>j<length (?P1 ! i). P' ! i ! j =
             (if j \<in> set js then real (fst (kbest (?M1 ! (i - 1)) tr j n)) else ?P1 ! i ! j)"
    by blast
  have a: "\<forall>r. r \<noteq> i \<longrightarrow> M' ! r = M ! r \<and> P' ! r = P ! r"
    using r(4) by simp
  have b: "\<forall>ja<length (M ! i). M' ! i ! ja =
             (if ja \<in> set (j # js) then score_add (snd (kbest (M ! (i - 1)) tr ja n)) (emi ! ja ! c)
              else M ! i ! ja)"
    using r(7) Cons.prems(1) unfolding prev by (auto simp: nth_list_update)
  have c: "\<forall>ja<length (P ! i). P' ! i ! ja =
             (if ja \<in> set (j # js) then real (fst (kbest (M ! (i - 1)) tr ja n)) else P ! i ! ja)"
    using r(8) Cons.prems(2) unfolding prev by (auto simp: nth_list_update)
  show ?case
    unfolding step using r(1,2,3,5,6) a b c Cons.prems(1,2) by simp
qed

lemma i_loop_spec:
  assumes "length tr = n" "\<forall>r\<in>set tr. length r = n" "length emi = n"
  shows "length M = T \<Longrightarrow> length P = T \<Longrightarrow> \<forall>r<T. length (M ! r) = n \<and> length (P ! r) = n \<Longrightarrow>
    sorted_wrt (<) is \<Longrightarrow>
    \<forall>i\<in>set is. 0 < i \<and> i < T \<and> i < length sequence
       \<and> (\<exists>c. cm (sequence ! i) = Some c \<and> (\<forall>j<n. c < length (emi ! j))) \<Longrightarrow>
    \<exists>M' P'. i_loop tr emi cm sequence n is (M, P) = Inr (M', P')
       \<and> length M' = T \<and> length P' = T
       \<and> (\<forall>r<T. length (M' ! r) = n \<and> length (P' ! r) = n)
       \<and> (\<forall>r. r \<notin> set is \<longrightarrow> M' ! r = M ! r \<and> P' ! r = P ! r)
       \<and> (\<forall>r\<in>set is. \<forall>j<n.
             M' ! r ! j = score_add (snd (kbest (M' ! (r - 1)) tr j n))
                             (emi ! j ! the (cm (sequence ! r)))
           \<and> P' ! r ! j = real (fst (kbest (M' ! (r - 1)) tr j n)))"
proof (induction "is" arbitrary: M P)
  case Nil
  then show ?case by simp
next
  case (Cons i "is")
  from Cons.prems(5) obtain c where
    i: "0 < i" "i < T" "i < length sequence" and c: "cm (sequence ! i) = Some c"
    and cl: "\<forall>j<n. c < length (emi ! j)" by auto
  have rows: "length (M ! i) = n" "length (P ! i) = n" "length (M ! (i - 1)) = n"
    using Cons.prems(3) i by simp_all
  have js: "\<forall>j\<in>set [0..<n]. j < n \<and> j < length emi \<and> c < length (emi ! j)
       \<and> j < length (M ! i) \<and> j < length (P ! i)"
    using rows cl assms(3) by simp
  have iM: "i < length M" "i < length P" using i Cons.prems(1,2) by simp_all
  from j_loop_spec[where cm=cm and sequence=sequence and i=i and c=c and tr=tr and n=n
      and M=M and P=P and js="[0..<n]" and emi=emi, OF i(1) i(3) c assms(1,2) iM rows(3) js]
  obtain M1 P1 where
    r1: "j_loop tr emi cm sequence n i [0..<n] (M, P) = Inr (M1, P1)"
      "length M1 = length M" "length P1 = length P"
      "\<forall>r. r \<noteq> i \<longrightarrow> M1 ! r = M ! r \<and> P1 ! r = P ! r"
      "length (M1 ! i) = length (M ! i)" "length (P1 ! i) = length (P ! i)"
      "\<forall>j<length (M ! i). M1 ! i ! j =
             (if j \<in> set [0..<n] then score_add (snd (kbest (M ! (i - 1)) tr j n)) (emi ! j ! c)
              else M ! i ! j)"
      "\<forall>j<length (P ! i). P1 ! i ! j =
             (if j \<in> set [0..<n] then real (fst (kbest (M ! (i - 1)) tr j n)) else P ! i ! j)"
    by blast
  have shape1: "length M1 = T" "length P1 = T" "\<forall>r<T. length (M1 ! r) = n \<and> length (P1 ! r) = n"
    using r1(2,3,4,5,6) Cons.prems(1,2,3) by (simp, simp, metis)
  have s: "sorted_wrt (<) is" using Cons.prems(4) by simp
  have rest: "\<forall>i\<in>set is. 0 < i \<and> i < T \<and> i < length sequence
       \<and> (\<exists>c. cm (sequence ! i) = Some c \<and> (\<forall>j<n. c < length (emi ! j)))"
    using Cons.prems(5) by simp
  from Cons.IH[OF shape1 s rest] obtain M' P' where
    r2: "i_loop tr emi cm sequence n is (M1, P1) = Inr (M', P')"
      "length M' = T" "length P' = T"
      "\<forall>r<T. length (M' ! r) = n \<and> length (P' ! r) = n"
      "\<forall>r. r \<notin> set is \<longrightarrow> M' ! r = M1 ! r \<and> P' ! r = P1 ! r"
      "\<forall>r\<in>set is. \<forall>j<n.
             M' ! r ! j = score_add (snd (kbest (M' ! (r - 1)) tr j n))
                             (emi ! j ! the (cm (sequence ! r)))
           \<and> P' ! r ! j = real (fst (kbest (M' ! (r - 1)) tr j n))"
    by blast
  have notin: "i \<notin> set is" "i - 1 \<notin> set is"
    using Cons.prems(4) by auto
  have "M' ! (i - 1) = M ! (i - 1)"
    using r2(5) notin(2) r1(4) i(1) by simp
  then have rowi: "\<forall>j<n. M' ! i ! j = score_add (snd (kbest (M' ! (i - 1)) tr j n))
                             (emi ! j ! the (cm (sequence ! i)))
           \<and> P' ! i ! j = real (fst (kbest (M' ! (i - 1)) tr j n))"
    using r2(5) notin(1) r1(7,8) rows c by simp
  have unchanged: "\<forall>r. r \<notin> set (i # is) \<longrightarrow> M' ! r = M ! r \<and> P' ! r = P ! r"
    using r2(5) r1(4) by simp
  show ?case
    using r1(1) r2(1,2,3,4,6) rowi unchanged by simp
qed

lemma tables_kbest:
  assumes wf: "wf_model m" and ne: "sequence \<noteq> []" and al: "set sequence \<subseteq> dom (char_map m)"
  defines "n \<equiv> length (initial m)" and "T \<equiv> length sequence"
    and "tr \<equiv> map (map np_log) (transitions m)" and "emi \<equiv> map (map np_log) (emissions m)"
  shows "\<exists>M P. optimal_path_tables sequence m = Inr (M, P)
     \<and> length M = T \<and> length P = T
     \<and> (\<forall>r<T. length (M ! r) = n \<and> length (P ! r) = n)
     \<and> (\<forall>s<n. M ! 0 ! s = score_add (np_log (initial m ! s))
                             (emi ! s ! the (char_map m (sequence ! 0))))
     \<and> (\<forall>s<n. P ! 0 ! s = 0)
     \<and> (\<forall>t. 0 < t \<and> t < T \<longrightarrow> (\<forall>j<n.
           M ! t ! j = score_add (snd (kbest (M ! (t - 1)) tr j n))
                          (emi ! j ! the (char_map m (sequence ! t)))
         \<and> P ! t ! j = real (fst (kbest (M ! (t - 1)) tr j n))))"
proof -
  let ?ini = "map np_log (initial m)"
  let ?cm = "char_map m"
  have T: "0 < T" using ne by (simp add: T_def)
  have sym: "\<And>t. t < T \<Longrightarrow> \<exists>c. ?cm (sequence ! t) = Some c \<and> (\<forall>j<n. c < length (emi ! j))"
  proof -
    fix t assume "t < T"
    then have "sequence ! t \<in> set sequence" by (simp add: T_def)
    then have "sequence ! t \<in> dom ?cm" using al by blast
    then obtain c where c: "?cm (sequence ! t) = Some c" by auto
    have "\<forall>j<n. c < length (emi ! j)"
      using wf c by (auto simp: wf_model_def emi_def n_def)
    with c show "\<exists>c. ?cm (sequence ! t) = Some c \<and> (\<forall>j<n. c < length (emi ! j))" by blast
  qed
  from sym[OF T] obtain c0 where c0: "?cm (sequence ! 0) = Some c0"
    and c0l: "\<forall>j<n. c0 < length (emi ! j)" by blast
  let ?Z = "zeros2 T n (Fin 0)"
  let ?ZP = "zeros2 T n (0::real)"
  have lens: "length tr = n" "\<forall>r\<in>set tr. length r = n" "length emi = n"
    using wf by (auto simp: wf_model_def tr_def emi_def n_def)
  have Z: "0 < length ?Z" "length (?Z ! 0) = n" using T by (simp_all add: zeros2_def)
  have "\<forall>i\<in>set [0..<n]. i < length ?ini \<and> i < length emi \<and> c0 < length (emi ! i)
      \<and> i < length (?Z ! 0)"
    using c0l lens(3) Z by (simp add: n_def)
  from base_loop_spec[where cm="?cm" and sequence=sequence, OF Z(1) ne c0 this] obtain M0 where
    M0: "base_loop ?ini emi ?cm sequence [0..<n] ?Z = Inr M0" "length M0 = length ?Z"
      "\<forall>r. 0 < r \<longrightarrow> M0 ! r = ?Z ! r" "length (M0 ! 0) = length (?Z ! 0)"
      "\<forall>s<length (?Z ! 0). M0 ! 0 ! s =
          (if s \<in> set [0..<n] then score_add (?ini ! s) (emi ! s ! c0) else ?Z ! 0 ! s)"
    by blast
  have shape0: "length M0 = T" "length ?ZP = T"
    "\<forall>r<T. length (M0 ! r) = n \<and> length (?ZP ! r) = n"
  proof -
    show "length M0 = T" using M0(2) by (simp add: zeros2_def)
    show "length ?ZP = T" by (simp add: zeros2_def)
    show "\<forall>r<T. length (M0 ! r) = n \<and> length (?ZP ! r) = n"
    proof (intro allI impI)
      fix r assume "r < T"
      then show "length (M0 ! r) = n \<and> length (?ZP ! r) = n"
        using M0(3,4) Z(2) by (cases "r = 0") (simp_all add: zeros2_def)
    qed
  qed
  have srt: "sorted_wrt (<) [Suc 0..<T]" by simp
  have rest: "\<forall>i\<in>set [Suc 0..<T]. 0 < i \<and> i < T \<and> i < length sequence
       \<and> (\<exists>c. ?cm (sequence ! i) = Some c \<and> (\<forall>j<n. c < length (emi ! j)))"
    using sym by (auto simp: T_def)
  from i_loop_spec[where cm="?cm" and sequence=sequence, OF lens shape0 srt rest] obtain M P where
    MP: "i_loop tr emi ?cm sequence n [Suc 0..<T] (M0, ?ZP) = Inr (M, P)"
      "length M = T" "length P = T"
      "\<forall>r<T. length (M ! r) = n \<and> length (P ! r) = n"
      "\<forall>r. r \<notin> set [Suc 0..<T] \<longrightarrow> M ! r = M0 ! r \<and> P ! r = ?ZP ! r"
      "\<forall>r\<in>set [Suc 0..<T]. \<forall>j<n.
             M ! r ! j = score_add (snd (kbest (M ! (r - 1)) tr j n))
                             (emi ! j ! the (?cm (sequence ! r)))
           \<and> P ! r ! j = real (fst (kbest (M ! (r - 1)) tr j n))"
    by blast
  have run: "optimal_path_tables sequence m = Inr (M, P)"
    using M0(1) MP(1)
    by (simp add: optimal_path_tables_def Let_def n_def T_def tr_def emi_def)
  have row0: "M ! 0 = M0 ! 0" "P ! 0 = ?ZP ! 0" using MP(5) by simp_all
  have b: "\<forall>s<n. M ! 0 ! s = score_add (np_log (initial m ! s))
                             (emi ! s ! the (?cm (sequence ! 0)))"
    using M0(5) Z(2) c0 row0 by (simp add: n_def)
  have p0: "\<forall>s<n. P ! 0 ! s = 0" using row0 T by (simp add: zeros2_def)
  have rec: "\<forall>t. 0 < t \<and> t < T \<longrightarrow> (\<forall>j<n.
           M ! t ! j = score_add (snd (kbest (M ! (t - 1)) tr j n))
                          (emi ! j ! the (?cm (sequence ! t)))
         \<and> P ! t ! j = real (fst (kbest (M ! (t - 1)) tr j n)))"
    using MP(6) by simp
  show ?thesis using run MP(2,3,4) b p0 rec by blast
qed

lemma wf_model_transitions:
  assumes "wf_model m" "k < length (initial m)" "j < length (initial m)"
  shows "k < length (transitions m)" "j < length (transitions m ! k)" "0 \<le> transitions m ! k ! j"
proof -
  show k: "k < length (transitions m)" using assms by (simp add: wf_model_def)
  then have r: "transitions m ! k \<in> set (transitions m)" by simp
  then show j: "j < length (transitions m ! k)" using assms by (simp add: wf_model_def)
  then have "transitions m ! k ! j \<in> set (transitions m ! k)" by simp
  with r show "0 \<le> transitions m ! k ! j" using assms(1) unfolding wf_model_def by blast
qed

lemma wf_model_emissions:
  assumes "wf_model m" "j < length (initial m)" "char_map m ch = Some c"
  shows "j < length (emissions m)" "c < length (emissions m ! j)" "0 \<le> emissions m ! j ! c"
proof -
  show k: "j < length (emissions m)" using assms by (simp add: wf_model_def)
  then have r: "emissions m ! j \<in> set (emissions m)" by simp
  then show c: "c < length (emissions m ! j)" using assms(1,3) unfolding wf_model_def by blast
  then have "emissions m ! j ! c \<in> set (emissions m ! j)" by simp
  with r show "0 \<le> emissions m ! j ! c" using assms(1) unfolding wf_model_def by blast
qed

lemma tables_spec:
  assumes wf: "wf_model m" and ne: "sequence \<noteq> []" and al: "set sequence \<subseteq> dom (char_map m)"
  defines "n \<equiv> length (initial m)" and "T \<equiv> length sequence"
  shows "\<exists>M P. optimal_path_tables sequence m = Inr (M, map (map real) P)
     \<and> length M = T \<and> length P = T
     \<and> (\<forall>r<T. length (M ! r) = n \<and> length (P ! r) = n)
     \<and> (\<forall>r<T. \<forall>j<n. M ! r ! j \<noteq> NaN \<and> P ! r ! j < n)
     \<and> (\<forall>s<n. M ! 0 ! s = score_add (np_log (initial m ! s))
                             (np_log (emissions m ! s ! symbol_index m sequence 0)))
     \<and> (\<forall>t j. 0 < t \<and> t < T \<and> j < n \<longrightarrow>
           M ! t ! j = score_add (candidate m M t j (P ! t ! j))
                          (np_log (emissions m ! j ! symbol_index m sequence t))
         \<and> (\<forall>k<n. score_le (candidate m M t j k) (candidate m M t j (P ! t ! j)))
         \<and> (\<forall>k<P ! t ! j. score_gt (candidate m M t j (P ! t ! j)) (candidate m M t j k)))"
proof -
  let ?tr = "map (map np_log) (transitions m)"
  let ?emi = "map (map np_log) (emissions m)"
  from tables_kbest[OF wf ne al] obtain M Pf where
    run0: "optimal_path_tables sequence m = Inr (M, Pf)"
    and len0: "length M = T" "length Pf = T"
    and rows0: "\<forall>r<T. length (M ! r) = n \<and> length (Pf ! r) = n"
    and base: "\<forall>s<n. M ! 0 ! s = score_add (np_log (initial m ! s))
                             (?emi ! s ! the (char_map m (sequence ! 0)))"
    and p0f: "\<forall>s<n. Pf ! 0 ! s = 0"
    and recf: "\<forall>t. 0 < t \<and> t < T \<longrightarrow> (\<forall>j<n.
           M ! t ! j = score_add (snd (kbest (M ! (t - 1)) ?tr j n))
                          (?emi ! j ! the (char_map m (sequence ! t)))
         \<and> Pf ! t ! j = real (fst (kbest (M ! (t - 1)) ?tr j n)))"
    unfolding n_def T_def by blast
  define P where "P = map (map (\<lambda>x. nat \<lfloor>x\<rfloor>)) Pf"
  have len: "length M = T" "length P = T" using len0 by (simp_all add: P_def)
  have rows: "\<forall>r<T. length (M ! r) = n \<and> length (P ! r) = n"
    using rows0 len0 by (simp add: P_def)
  have Pnth: "\<And>r j. r < T \<Longrightarrow> j < n \<Longrightarrow> P ! r ! j = nat \<lfloor>Pf ! r ! j\<rfloor>"
    using rows0 len0 by (simp add: P_def)
  have p0: "\<forall>s<n. P ! 0 ! s = 0"
  proof (intro allI impI)
    fix s assume s: "s < n"
    have "0 < T" using ne by (simp add: T_def)
    from Pnth[OF this s] p0f s show "P ! 0 ! s = 0" by simp
  qed
  have rec: "\<forall>t. 0 < t \<and> t < T \<longrightarrow> (\<forall>j<n.
           M ! t ! j = score_add (snd (kbest (M ! (t - 1)) ?tr j n))
                          (?emi ! j ! the (char_map m (sequence ! t)))
         \<and> P ! t ! j = fst (kbest (M ! (t - 1)) ?tr j n))"
  proof (intro allI impI)
    fix t j assume t: "0 < t \<and> t < T" and j: "j < n"
    from recf t j have
      a: "M ! t ! j = score_add (snd (kbest (M ! (t - 1)) ?tr j n))
                          (?emi ! j ! the (char_map m (sequence ! t)))"
      and b: "Pf ! t ! j = real (fst (kbest (M ! (t - 1)) ?tr j n))" by simp_all
    have "P ! t ! j = fst (kbest (M ! (t - 1)) ?tr j n)"
      using Pnth[of t j] t j b by simp
    with a show "M ! t ! j = score_add (snd (kbest (M ! (t - 1)) ?tr j n))
                          (?emi ! j ! the (char_map m (sequence ! t)))
         \<and> P ! t ! j = fst (kbest (M ! (t - 1)) ?tr j n)" by simp
  qed
  have cell: "\<And>r j. r < T \<Longrightarrow> j < n \<Longrightarrow> Pf ! r ! j = real (P ! r ! j)"
  proof -
    fix r j assume r: "r < T" and j: "j < n"
    show "Pf ! r ! j = real (P ! r ! j)"
    proof (cases "r = 0")
      case True
      then show ?thesis using p0f p0 j by simp
    next
      case False
      then show ?thesis using recf rec r j by simp
    qed
  qed
  have PfP: "Pf = map (map real) P"
  proof (rule nth_equalityI)
    show "length Pf = length (map (map real) P)" using len0 len by simp
  next
    fix r assume "r < length Pf"
    then have r: "r < T" using len0 by simp
    have "Pf ! r = map real (P ! r)"
    proof (rule nth_equalityI)
      show "length (Pf ! r) = length (map real (P ! r))" using rows0 rows r by simp
    next
      fix j assume "j < length (Pf ! r)"
      then have j: "j < n" using rows0 r by simp
      then show "Pf ! r ! j = map real (P ! r) ! j" using cell[OF r j] rows r by simp
    qed
    then show "Pf ! r = map (map real) P ! r" using len r by simp
  qed
  have run: "optimal_path_tables sequence m = Inr (M, map (map real) P)"
    using run0 PfP by simp
  have trn: "\<And>k j. k < n \<Longrightarrow> j < n \<Longrightarrow> ?tr ! k ! j = np_log (transitions m ! k ! j)"
    using wf by (simp add: wf_model_def n_def)
  have trnn: "\<And>k j. k < n \<Longrightarrow> j < n \<Longrightarrow> ?tr ! k ! j \<noteq> NaN"
  proof -
    fix k j assume kj: "k < n" "j < n"
    then have "0 \<le> transitions m ! k ! j"
      using wf_model_transitions(3)[OF wf] by (simp add: n_def)
    then show "?tr ! k ! j \<noteq> NaN" using trn[OF kj] np_log_not_NaN by simp
  qed
  have em: "\<And>t j. t < T \<Longrightarrow> j < n \<Longrightarrow>
      ?emi ! j ! the (char_map m (sequence ! t))
        = np_log (emissions m ! j ! symbol_index m sequence t)"
    and emnn: "\<And>t j. t < T \<Longrightarrow> j < n \<Longrightarrow>
      np_log (emissions m ! j ! symbol_index m sequence t) \<noteq> NaN"
  proof -
    fix t j assume tj: "t < T" "j < n"
    then have "sequence ! t \<in> set sequence" by (simp add: T_def)
    then obtain c where c: "char_map m (sequence ! t) = Some c" using al by blast
    have j': "j < length (initial m)" using tj by (simp add: n_def)
    note e = wf_model_emissions[OF wf j' c]
    show "?emi ! j ! the (char_map m (sequence ! t))
        = np_log (emissions m ! j ! symbol_index m sequence t)"
      using c e(1,2) by (simp add: symbol_index_def)
    show "np_log (emissions m ! j ! symbol_index m sequence t) \<noteq> NaN"
      using c e(3) np_log_not_NaN by (simp add: symbol_index_def)
  qed
  have T: "0 < T" using ne by (simp add: T_def)
  have nn: "\<And>t. t < T \<Longrightarrow> \<forall>j<n. M ! t ! j \<noteq> NaN"
  proof -
    fix t show "t < T \<Longrightarrow> \<forall>j<n. M ! t ! j \<noteq> NaN"
    proof (induction t)
      case 0
      have "\<And>s. s < n \<Longrightarrow> np_log (initial m ! s) \<noteq> NaN"
        using wf by (simp add: wf_model_def n_def np_log_not_NaN)
      then show ?case using base em[OF T] emnn[OF T] score_add_not_NaN by simp
    next
      case (Suc t)
      then have ih: "\<forall>k<n. M ! t ! k \<noteq> NaN" by simp
      show ?case
      proof (intro allI impI)
        fix j assume j: "j < n"
        then have "\<forall>k<n. score_add (M ! t ! k) (?tr ! k ! j) \<noteq> NaN"
          using ih trnn score_add_not_NaN by simp
        from kbest_spec(5)[OF this] j have "snd (kbest (M ! t) ?tr j n) \<noteq> NaN" by simp
        then show "M ! Suc t ! j \<noteq> NaN"
          using rec Suc.prems j em[OF Suc.prems j] emnn[OF Suc.prems j] score_add_not_NaN
          by simp
      qed
    qed
  qed
  have step: "\<And>t j. 0 < t \<Longrightarrow> t < T \<Longrightarrow> j < n \<Longrightarrow>
           P ! t ! j < n
         \<and> M ! t ! j = score_add (candidate m M t j (P ! t ! j))
                          (np_log (emissions m ! j ! symbol_index m sequence t))
         \<and> (\<forall>k<n. score_le (candidate m M t j k) (candidate m M t j (P ! t ! j)))
         \<and> (\<forall>k<P ! t ! j. score_gt (candidate m M t j (P ! t ! j)) (candidate m M t j k))"
  proof -
    fix t j assume t: "0 < t" "t < T" and j: "j < n"
    let ?kb = "kbest (M ! (t - 1)) ?tr j n"
    have prev: "\<forall>k<n. M ! (t - 1) ! k \<noteq> NaN" using nn[of "t - 1"] t by simp
    then have c: "\<forall>k<n. score_add (M ! (t - 1) ! k) (?tr ! k ! j) \<noteq> NaN"
      using trnn j score_add_not_NaN by simp
    have n0: "0 < n" using j by simp
    note kb = kbest_spec[OF c n0]
    have Pt: "P ! t ! j = fst ?kb" and Mt: "M ! t ! j = score_add (snd ?kb)
        (?emi ! j ! the (char_map m (sequence ! t)))"
      using rec t j by simp_all
    have cand: "\<And>k. k < n \<Longrightarrow> candidate m M t j k = score_add (M ! (t - 1) ! k) (?tr ! k ! j)"
      using trn j by (simp add: candidate_def)
    have Pn: "P ! t ! j < n" using kb(1) Pt by simp
    have a: "M ! t ! j = score_add (candidate m M t j (P ! t ! j))
                          (np_log (emissions m ! j ! symbol_index m sequence t))"
      using Mt kb(2) Pt cand[OF Pn] em[OF t(2) j] by simp
    have b: "\<forall>k<n. score_le (candidate m M t j k) (candidate m M t j (P ! t ! j))"
      using kb(3) kb(2) Pt cand Pn by simp
    have "\<forall>k<P ! t ! j. k < n" using Pn by simp
    then have d: "\<forall>k<P ! t ! j. score_gt (candidate m M t j (P ! t ! j)) (candidate m M t j k)"
      using kb(4) kb(2) Pt cand Pn by simp
    show "P ! t ! j < n
         \<and> M ! t ! j = score_add (candidate m M t j (P ! t ! j))
                          (np_log (emissions m ! j ! symbol_index m sequence t))
         \<and> (\<forall>k<n. score_le (candidate m M t j k) (candidate m M t j (P ! t ! j)))
         \<and> (\<forall>k<P ! t ! j. score_gt (candidate m M t j (P ! t ! j)) (candidate m M t j k))"
      using Pn a b d by blast
  qed
  have Pn: "\<forall>r<T. \<forall>j<n. M ! r ! j \<noteq> NaN \<and> P ! r ! j < n"
  proof (intro allI impI)
    fix r j assume r: "r < T" and j: "j < n"
    have "M ! r ! j \<noteq> NaN" using nn[OF r] j by simp
    moreover have "P ! r ! j < n"
    proof (cases "r = 0")
      case True
      then show ?thesis using p0 j by simp
    next
      case False
      then show ?thesis using step[of r j] r j by simp
    qed
    ultimately show "M ! r ! j \<noteq> NaN \<and> P ! r ! j < n" by simp
  qed
  have base': "\<forall>s<n. M ! 0 ! s = score_add (np_log (initial m ! s))
                             (np_log (emissions m ! s ! symbol_index m sequence 0))"
    using base em[OF T] by simp
  show ?thesis
    by (intro exI[of _ M] exI[of _ P] conjI allI impI)
       (use run len rows Pn base' step in \<open>simp_all\<close>)
qed

section \<open>Verification: final state and backtracking\<close>

lemma argmax_scan_spec:
  assumes "\<forall>x\<in>set row. x \<noteq> NaN"
  shows "i \<le> length row \<Longrightarrow> best < i \<Longrightarrow> \<forall>k<i. score_le (row ! k) (row ! best) \<Longrightarrow>
     \<forall>k<best. score_gt (row ! best) (row ! k) \<Longrightarrow>
     argmax_scan (drop i row) i best (row ! best) < length row
     \<and> (\<forall>k<length row. score_le (row ! k) (row ! argmax_scan (drop i row) i best (row ! best)))
     \<and> (\<forall>k<argmax_scan (drop i row) i best (row ! best).
           score_gt (row ! argmax_scan (drop i row) i best (row ! best)) (row ! k))"
proof (induction "length row - i" arbitrary: i best)
  case 0
  then show ?case by simp
next
  case (Suc d)
  then have i: "i < length row" by simp
  then have dr: "drop i row = row ! i # drop (Suc i) row"
    by (simp add: Cons_nth_drop_Suc)
  have nn: "row ! i \<noteq> NaN" "row ! best \<noteq> NaN" using assms i Suc.prems(2) by simp_all
  have d: "d = length row - Suc i" using Suc.hyps(2) by simp
  show ?case
  proof (cases "score_le (row ! i) (row ! best)")
    case True
    have "\<forall>k<Suc i. score_le (row ! k) (row ! best)"
      using Suc.prems(3) True less_Suc_eq by metis
    from Suc.hyps(1)[OF d _ _ this Suc.prems(4)] i Suc.prems(2) True
    show ?thesis unfolding dr by simp
  next
    case False
    then have gt: "score_gt (row ! i) (row ! best)" using score_not_le_gt[OF nn] by simp
    have a: "\<forall>k<i. score_gt (row ! i) (row ! k)"
      using Suc.prems(3) gt score_le_gt_trans by blast
    have "\<forall>k<Suc i. score_le (row ! k) (row ! i)"
      using a score_gt_imp_le score_le_refl[OF nn(1)] less_Suc_eq by metis
    from Suc.hyps(1)[OF d _ _ this a] i False nn(1)
    show ?thesis unfolding dr by simp
  qed
qed

lemma np_argmax_spec:
  assumes "row \<noteq> []" "\<forall>x\<in>set row. x \<noteq> NaN"
  shows "\<exists>b. np_argmax row = Inr b \<and> b < length row
     \<and> (\<forall>k<length row. score_le (row ! k) (row ! b))
     \<and> (\<forall>k<b. score_gt (row ! b) (row ! k))"
proof -
  obtain x xs where row: "row = x # xs" using assms(1) by (cases row) auto
  have x: "x \<noteq> NaN" using assms(2) row by simp
  have r: "np_argmax row = Inr (argmax_scan (drop 1 row) 1 0 (row ! 0))"
    using row x by (simp add: np_argmax_def)
  have "\<forall>k<1. score_le (row ! k) (row ! 0)" using score_le_refl x row by simp
  from argmax_scan_spec[OF assms(2), of 1 0] this row r show ?thesis by simp
qed

lemma label_lookup_int [simp]: "label_lookup lm (NpInt k) = py_lookup lm k"
  by (simp add: label_lookup_def)

lemma label_lookup_float [simp]: "label_lookup lm (NpFloat (real k)) = py_lookup lm k"
  by (simp add: label_lookup_def)

lemma read_P_int:
  "i < length P \<Longrightarrow> k < length (P ! i) \<Longrightarrow>
     read_P (map (map real) P) i (NpInt k) = Inr (NpFloat (real (P ! i ! k)))"
  by (simp add: read_P_def get2_def)

lemma read_P_float [simp]: "read_P P i (NpFloat x) = Inl IndexError"
  by (simp add: read_P_def)

text \<open>
  One symbol: the loop runs once and reads \<^verbatim>\<open>P\<close> with the integer of \<^verbatim>\<open>argmax\<close>. Two
  symbols or more: the second pass indexes \<^verbatim>\<open>P\<close> with the float read in the first.
\<close>

lemma backtrack_loop_one:
  assumes "i < length P" "k < length (P ! i)"
  shows "backtrack_loop lm (map (map real) P) [i] (NpInt k) acc =
           ebind (py_lookup lm k) (\<lambda>l. Inr (acc @ [l]))"
  using read_P_int[OF assms] by (cases "py_lookup lm k") simp_all

lemma backtrack_loop_two:
  assumes "i < length P" "k < length (P ! i)"
  shows "backtrack_loop lm (map (map real) P) (i # i' # is) (NpInt k) acc =
           (if lm k = None \<or> lm (P ! i ! k) = None then Inl KeyError else Inl IndexError)"
  using read_P_int[OF assms] by (auto simp: py_lookup_def split: option.splits)

lemma py_join_single:
  "py_join [v] = (case v of VStr l \<Rightarrow> Inr l | _ \<Rightarrow> Inl TypeError)"
  by (cases v) simp_all

lemma optimal_path_decode:
  assumes run: "optimal_path_tables sequence m = Inr (M, map (map real) P)"
    and len: "length M = length sequence" "length P = length sequence"
    and rows: "\<forall>r<length sequence. length (M ! r) = n \<and> length (P ! r) = n"
    and ok: "\<forall>r<length sequence. \<forall>j<n. M ! r ! j \<noteq> NaN \<and> P ! r ! j < n"
    and ne: "sequence \<noteq> []"
  shows "n = 0 \<Longrightarrow> optimal_path sequence m = Inl ValueError"
    and "0 < n \<Longrightarrow> \<exists>best. np_argmax (last M) = Inr best \<and> best < n
       \<and> (\<forall>k<n. score_le (last M ! k) (last M ! best))
       \<and> (\<forall>k<best. score_gt (last M ! best) (last M ! k))
       \<and> (length sequence = 1 \<longrightarrow> optimal_path sequence m =
             (case label_map m best of
                None \<Rightarrow> Inl KeyError
              | Some v \<Rightarrow> (case v of VStr l \<Rightarrow> Inr (M, l) | _ \<Rightarrow> Inl TypeError)))
       \<and> (2 \<le> length sequence \<longrightarrow> optimal_path sequence m =
             (if label_map m best = None
                 \<or> label_map m (P ! (length sequence - 1) ! best) = None
              then Inl KeyError else Inl IndexError))"
proof -
  let ?T = "length sequence"
  have T: "0 < ?T" using ne by simp
  have Mne: "M \<noteq> []" using len T by auto
  have lastM: "last M = M ! (?T - 1)" using Mne len by (simp add: last_conv_nth)
  have lr: "last_row M = Inr (last M)" using Mne by (simp add: last_row_def)
  have lrow: "length (last M) = n" using rows T lastM by simp
  {
    assume "n = 0"
    then have "last M = []" using lrow by simp
    then show "optimal_path sequence m = Inl ValueError"
      using run lr by (simp add: optimal_path_def np_argmax_def)
  }
  {
    assume n: "0 < n"
    then have rne: "last M \<noteq> []" using lrow by auto
    have "\<forall>x\<in>set (last M). x \<noteq> NaN"
      using ok T lrow lastM by (auto simp: in_set_conv_nth)
    from np_argmax_spec[OF rne this] lrow obtain best where
      b: "np_argmax (last M) = Inr best" "best < n"
        "\<forall>k<n. score_le (last M ! k) (last M ! best)"
        "\<forall>k<best. score_gt (last M ! best) (last M ! k)"
      by auto
    have op: "optimal_path sequence m =
           ebind (backtrack_loop (label_map m) (map (map real) P) (rev [0..<?T]) (NpInt best) [])
             (\<lambda>backtracked. ebind (py_join (rev backtracked)) (\<lambda>path. Inr (M, path)))"
      using run lr b(1) by (simp add: optimal_path_def)
    have tl: "?T - 1 < length P" using T len by simp
    have bl: "best < length (P ! (?T - 1))" using rows T b(2) by simp
    have one: "?T = 1 \<longrightarrow> optimal_path sequence m =
             (case label_map m best of
                None \<Rightarrow> Inl KeyError
              | Some v \<Rightarrow> (case v of VStr l \<Rightarrow> Inr (M, l) | _ \<Rightarrow> Inl TypeError))"
    proof
      assume T1: "?T = 1"
      then have rv: "rev [0..<?T] = [?T - 1]" by simp
      show "optimal_path sequence m =
             (case label_map m best of
                None \<Rightarrow> Inl KeyError
              | Some v \<Rightarrow> (case v of VStr l \<Rightarrow> Inr (M, l) | _ \<Rightarrow> Inl TypeError))"
        unfolding op rv backtrack_loop_one[OF tl bl]
        by (simp add: py_lookup_def py_join_single split: option.splits pvalue.splits)
    qed
    have two: "2 \<le> ?T \<longrightarrow> optimal_path sequence m =
             (if label_map m best = None \<or> label_map m (P ! (?T - 1) ! best) = None
              then Inl KeyError else Inl IndexError)"
    proof
      assume "2 \<le> ?T"
      then obtain t where t: "?T = Suc (Suc t)" by (cases ?T; cases "?T - 1") auto
      have rv: "rev [0..<?T] = (?T - 1) # (?T - 2) # rev [0..<?T - 2]" unfolding t by simp
      show "optimal_path sequence m =
             (if label_map m best = None \<or> label_map m (P ! (?T - 1) ! best) = None
              then Inl KeyError else Inl IndexError)"
        unfolding op rv backtrack_loop_two[OF tl bl] by simp
    qed
    show "\<exists>best. np_argmax (last M) = Inr best \<and> best < n
       \<and> (\<forall>k<n. score_le (last M ! k) (last M ! best))
       \<and> (\<forall>k<best. score_gt (last M ! best) (last M ! k))
       \<and> (length sequence = 1 \<longrightarrow> optimal_path sequence m =
             (case label_map m best of
                None \<Rightarrow> Inl KeyError
              | Some v \<Rightarrow> (case v of VStr l \<Rightarrow> Inr (M, l) | _ \<Rightarrow> Inl TypeError)))
       \<and> (2 \<le> length sequence \<longrightarrow> optimal_path sequence m =
             (if label_map m best = None
                 \<or> label_map m (P ! (length sequence - 1) ! best) = None
              then Inl KeyError else Inl IndexError))"
      by (intro exI[of _ best] conjI) (rule b one two)+
  }
qed

lemma toy_model_wf: "wf_model toy_model"
  by (auto simp: wf_model_def toy_model_def split: if_splits)

lemma tie_model_wf: "wf_model tie_model"
  by (auto simp: wf_model_def tie_model_def split: if_splits)

lemma toy_model_tables:
  "optimal_path_tables ''ABB'' toy_model =
     Inr ([[Fin 0, NegInf],
           [NegInf, Fin (ln (1/2) + ln (1/2))],
           [NegInf, Fin (ln (1/2) + ln (1/2) + ln (1/2))]],
          [[0, 0], [0, 0], [0, 1]])"
  by (simp add: optimal_path_tables_def toy_model_def zeros2_def np_log_def
      upt_rec py_index_def py_lookup_def get2_def put2_def Let_def)

lemma toy_model_ABB: "optimal_path ''ABB'' toy_model = Inl IndexError"
  unfolding optimal_path_def toy_model_tables
  by (simp add: last_row_def np_argmax_def upt_rec label_lookup_def read_P_def get2_def
      py_lookup_def toy_model_def)

lemma toy_model_A:
  "optimal_path ''A'' toy_model = Inr ([[Fin 0, NegInf]], ''i'')"
  by (simp add: optimal_path_def optimal_path_tables_def toy_model_def zeros2_def np_log_def
      upt_rec py_index_def py_lookup_def get2_def put2_def last_row_def np_argmax_def Let_def
      label_lookup_def read_P_def)

lemma tie_model_tables:
  "optimal_path_tables ''AB'' tie_model =
     Inr ([[Fin (ln (1/2) + ln (1/2)), Fin (ln (1/2) + ln (1/2))],
           [Fin (ln (1/2) + ln (1/2) + ln (1/2) + ln (1/2)),
            Fin (ln (1/2) + ln (1/2) + ln (1/2) + ln (1/2))]], [[0, 0], [0, 0]])"
  by (simp add: optimal_path_tables_def tie_model_def zeros2_def np_log_def
      upt_rec py_index_def py_lookup_def get2_def put2_def Let_def)

text \<open>
  Claim C4. For a model of the shape \<open>wf_model\<close> with at least one state and a non-empty
  sequence over the keys of \<open>char_map\<close>: the state \<open>best\<close> that \<^verbatim>\<open>argmax\<close> picks in the last
  row \<^verbatim>\<open>M[-1,]\<close> has a maximal score, every state of lower index has a strictly smaller
  score, and so every state with the same score has an index at least \<open>best\<close>; and for
  \<open>1 \<le> t < T\<close> and every state \<open>j\<close> the predecessor \<open>k\<close> whose float \<open>P[t][j]\<close> holds has a
  maximal score \<open>M[t-1][k] + log transitions[k][j]\<close>, every predecessor of lower index has
  a strictly smaller one, and every predecessor with the same score has an index at least
  \<open>k\<close>.
\<close>

theorem viterbi_ties_lowest_index:
  assumes "wf_model m" "sequence \<noteq> []" "set sequence \<subseteq> dom (char_map m)"
    and "0 < length (initial m)"
  shows "\<exists>M P best. optimal_path_tables sequence m = Inr (M, map (map real) P)
     \<and> last_row M = Inr (last M)
     \<and> np_argmax (last M) = Inr best \<and> best < length (initial m)
     \<and> (\<forall>k<length (initial m). score_le (last M ! k) (last M ! best))
     \<and> (\<forall>k<best. score_gt (last M ! best) (last M ! k))
     \<and> (\<forall>k<length (initial m). last M ! k = last M ! best \<longrightarrow> best \<le> k)
     \<and> (\<forall>t j. 0 < t \<and> t < length sequence \<and> j < length (initial m) \<longrightarrow>
           (\<forall>k<length (initial m).
               score_le (candidate m M t j k) (candidate m M t j (P ! t ! j)))
         \<and> (\<forall>k<P ! t ! j. score_gt (candidate m M t j (P ! t ! j)) (candidate m M t j k))
         \<and> (\<forall>k<length (initial m).
               candidate m M t j k = candidate m M t j (P ! t ! j) \<longrightarrow> P ! t ! j \<le> k))"
proof -
  let ?n = "length (initial m)"
  let ?T = "length sequence"
  from tables_spec[OF assms(1,2,3)] obtain M P where
    run: "optimal_path_tables sequence m = Inr (M, map (map real) P)"
    and len: "length M = ?T" "length P = ?T"
    and rows: "\<forall>r<?T. length (M ! r) = ?n \<and> length (P ! r) = ?n"
    and ok: "\<forall>r<?T. \<forall>j<?n. M ! r ! j \<noteq> NaN \<and> P ! r ! j < ?n"
    and rec: "\<forall>t j. 0 < t \<and> t < ?T \<and> j < ?n \<longrightarrow>
           M ! t ! j = score_add (candidate m M t j (P ! t ! j))
                          (np_log (emissions m ! j ! symbol_index m sequence t))
         \<and> (\<forall>k<?n. score_le (candidate m M t j k) (candidate m M t j (P ! t ! j)))
         \<and> (\<forall>k<P ! t ! j. score_gt (candidate m M t j (P ! t ! j)) (candidate m M t j k))"
    by blast
  from optimal_path_decode(2)[OF run len rows ok assms(2,4)] obtain best where
    b: "np_argmax (last M) = Inr best" "best < ?n"
      "\<forall>k<?n. score_le (last M ! k) (last M ! best)"
      "\<forall>k<best. score_gt (last M ! best) (last M ! k)"
    by blast
  have lr: "last_row M = Inr (last M)" using len(1) assms(2) by (auto simp: last_row_def)
  have b5: "\<forall>k<?n. last M ! k = last M ! best \<longrightarrow> best \<le> k"
  proof (intro allI impI)
    fix k assume "k < ?n" and e: "last M ! k = last M ! best"
    show "best \<le> k"
    proof (rule ccontr)
      assume "\<not> best \<le> k"
      then have "score_gt (last M ! best) (last M ! k)" using b(4) by simp
      then show False using e score_gt_irrefl by simp
    qed
  qed
  have rec': "\<forall>t j. 0 < t \<and> t < ?T \<and> j < ?n \<longrightarrow>
           (\<forall>k<?n. score_le (candidate m M t j k) (candidate m M t j (P ! t ! j)))
         \<and> (\<forall>k<P ! t ! j. score_gt (candidate m M t j (P ! t ! j)) (candidate m M t j k))
         \<and> (\<forall>k<?n. candidate m M t j k = candidate m M t j (P ! t ! j) \<longrightarrow> P ! t ! j \<le> k)"
  proof (intro allI impI)
    fix t j assume tj: "0 < t \<and> t < ?T \<and> j < ?n"
    with rec have
      mx: "\<forall>k<?n. score_le (candidate m M t j k) (candidate m M t j (P ! t ! j))"
      and st: "\<forall>k<P ! t ! j. score_gt (candidate m M t j (P ! t ! j)) (candidate m M t j k)"
      by blast+
    have "\<forall>k<?n. candidate m M t j k = candidate m M t j (P ! t ! j) \<longrightarrow> P ! t ! j \<le> k"
    proof (intro allI impI)
      fix k assume "k < ?n" and e: "candidate m M t j k = candidate m M t j (P ! t ! j)"
      show "P ! t ! j \<le> k"
      proof (rule ccontr)
        assume "\<not> P ! t ! j \<le> k"
        then have "score_gt (candidate m M t j (P ! t ! j)) (candidate m M t j k)"
          using st by simp
        then show False using e score_gt_irrefl by simp
      qed
    qed
    with mx st show "(\<forall>k<?n. score_le (candidate m M t j k) (candidate m M t j (P ! t ! j)))
         \<and> (\<forall>k<P ! t ! j. score_gt (candidate m M t j (P ! t ! j)) (candidate m M t j k))
         \<and> (\<forall>k<?n. candidate m M t j k = candidate m M t j (P ! t ! j) \<longrightarrow> P ! t ! j \<le> k)"
      by blast
  qed
  show ?thesis
    by (intro exI[of _ M] exI[of _ P] exI[of _ best] conjI) (rule run lr b b5 rec')+
qed

theorem viterbi_ties_lowest_index_witness:
  "wf_model tie_model \<and> ''AB'' \<noteq> [] \<and> set ''AB'' \<subseteq> dom (char_map tie_model)
   \<and> 0 < length (initial tie_model)
   \<and> (\<exists>M P best. optimal_path_tables ''AB'' tie_model = Inr (M, map (map real) P)
        \<and> np_argmax (last M) = Inr best
        \<and> last M ! 0 = last M ! 1 \<and> best = 0
        \<and> candidate tie_model M 1 0 0 = candidate tie_model M 1 0 1 \<and> P ! 1 ! 0 = 0)"
proof -
  have h1: "wf_model tie_model" by (rule tie_model_wf)
  have h2: "''AB'' \<noteq> []" by simp
  have h3: "set ''AB'' \<subseteq> dom (char_map tie_model)" by (simp add: tie_model_def)
  have h4: "0 < length (initial tie_model)" by (simp add: tie_model_def)
  have n2: "length (initial tie_model) = 2" by (simp add: tie_model_def)
  note inst = viterbi_ties_lowest_index [OF h1 h2 h3 h4]
  from inst obtain M P best where
    run: "optimal_path_tables ''AB'' tie_model = Inr (M, map (map real) P)"
    and am: "np_argmax (last M) = Inr best" and bn0: "best < length (initial tie_model)"
    and low0: "\<forall>k<length (initial tie_model). last M ! k = last M ! best \<longrightarrow> best \<le> k"
    and rec: "\<forall>t j. 0 < t \<and> t < length ''AB'' \<and> j < length (initial tie_model) \<longrightarrow>
           (\<forall>k<length (initial tie_model).
               score_le (candidate tie_model M t j k) (candidate tie_model M t j (P ! t ! j)))
         \<and> (\<forall>k<P ! t ! j. score_gt (candidate tie_model M t j (P ! t ! j)) (candidate tie_model M t j k))
         \<and> (\<forall>k<length (initial tie_model).
               candidate tie_model M t j k = candidate tie_model M t j (P ! t ! j) \<longrightarrow> P ! t ! j \<le> k)"
    by (elim exE conjE) (rule that; assumption)
  have bn: "best < 2" and low: "\<forall>k<2. last M ! k = last M ! best \<longrightarrow> best \<le> k"
    using bn0 low0 unfolding n2 by simp_all
  have M: "M = [[Fin (ln (1/2) + ln (1/2)), Fin (ln (1/2) + ln (1/2))],
           [Fin (ln (1/2) + ln (1/2) + ln (1/2) + ln (1/2)),
            Fin (ln (1/2) + ln (1/2) + ln (1/2) + ln (1/2))]]"
    using run unfolding tie_model_tables by simp
  have eq: "last M ! 0 = last M ! 1" unfolding M by simp
  have b0: "best = 0"
  proof (rule ccontr)
    assume "best \<noteq> 0"
    then have "best = 1" using bn by simp
    then have "last M ! 0 = last M ! best" using eq by simp
    moreover have "(0::nat) < 2" by simp
    ultimately have "best \<le> 0" using low by blast
    with \<open>best \<noteq> 0\<close> show False by simp
  qed
  have ceq: "candidate tie_model M 1 0 0 = candidate tie_model M 1 0 1"
    unfolding M by (simp add: candidate_def tie_model_def)
  have Pf: "map (map real) P = [[0, 0], [0, 0]]"
    using run unfolding tie_model_tables by simp
  from arg_cong[OF Pf, of length] have lP: "length P = 2" by simp
  from arg_cong[OF Pf, of "\<lambda>xs. xs ! 1"] lP have row: "map real (P ! 1) = [0, 0]" by simp
  from arg_cong[OF row, of length] have lr: "length (P ! 1) = 2" by simp
  from arg_cong[OF row, of "\<lambda>xs. xs ! 0"] lr have p0: "P ! 1 ! 0 = 0" by simp
  show ?thesis
    by (intro conjI exI[of _ M] exI[of _ P] exI[of _ best]) (rule h1 h2 h3 h4 run am eq b0 ceq p0)+
qed

text \<open>
  Claim C1. For a model of the shape \<open>wf_model\<close> and a non-empty sequence over the keys of
  \<open>char_map\<close>, the loops of \<open>optimal_path\<close> raise nothing and leave tables \<open>M\<close> and \<open>P\<close>
  with: \<open>M[0][s] = log initial[s] + log emissions[s][symbol 0]\<close> for every state \<open>s\<close>;
  for \<open>1 \<le> t < T\<close> and every state \<open>j\<close>, \<open>P[t][j]\<close> holds the float of a state \<open>k\<close>,
  \<open>M[t][j]\<close> is the score \<open>M[t-1][k] + log transitions[k][j]\<close> of that \<open>k\<close> plus
  \<open>log emissions[j][symbol t]\<close>, and no predecessor has a greater score. The backtracking
  does not deliver the path: the state read from \<open>P\<close> in the first pass of the loop is a
  float, and \<^verbatim>\<open>P[i, next_state]\<close> in the second pass raises \<^verbatim>\<open>IndexError\<close>. With two symbols
  or more \<open>optimal_path\<close> therefore returns nothing: it raises \<^verbatim>\<open>KeyError\<close> when the final
  state or its stored predecessor has no label and \<^verbatim>\<open>IndexError\<close> otherwise. With one
  symbol it returns \<open>M\<close> and the label of \<^verbatim>\<open>argmax\<close> of the only row. Without states it
  raises \<^verbatim>\<open>ValueError\<close>.
\<close>

theorem optimal_path_viterbi_table:
  assumes "wf_model m" "sequence \<noteq> []" "set sequence \<subseteq> dom (char_map m)"
  shows "\<exists>M P. optimal_path_tables sequence m = Inr (M, map (map real) P)
     \<and> length M = length sequence
     \<and> (\<forall>s<length (initial m).
           M ! 0 ! s = score_add (np_log (initial m ! s))
                         (np_log (emissions m ! s ! symbol_index m sequence 0)))
     \<and> (\<forall>t j. 0 < t \<and> t < length sequence \<and> j < length (initial m) \<longrightarrow>
           P ! t ! j < length (initial m)
         \<and> M ! t ! j = score_add (candidate m M t j (P ! t ! j))
                          (np_log (emissions m ! j ! symbol_index m sequence t))
         \<and> (\<forall>k<length (initial m).
               score_le (candidate m M t j k) (candidate m M t j (P ! t ! j))))
     \<and> (length (initial m) = 0 \<longrightarrow> optimal_path sequence m = Inl ValueError)
     \<and> (0 < length (initial m) \<longrightarrow>
          (\<exists>best. np_argmax (M ! (length sequence - 1)) = Inr best \<and> best < length (initial m)
             \<and> (length sequence = 1 \<longrightarrow> optimal_path sequence m =
                   (case label_map m best of
                      None \<Rightarrow> Inl KeyError
                    | Some v \<Rightarrow> (case v of VStr l \<Rightarrow> Inr (M, l) | _ \<Rightarrow> Inl TypeError)))
             \<and> (2 \<le> length sequence \<longrightarrow> optimal_path sequence m =
                   (if label_map m best = None
                       \<or> label_map m (P ! (length sequence - 1) ! best) = None
                    then Inl KeyError else Inl IndexError))))"
proof -
  let ?n = "length (initial m)"
  let ?T = "length sequence"
  from tables_spec[OF assms] obtain M P where
    run: "optimal_path_tables sequence m = Inr (M, map (map real) P)"
    and len: "length M = ?T" "length P = ?T"
    and rows: "\<forall>r<?T. length (M ! r) = ?n \<and> length (P ! r) = ?n"
    and ok: "\<forall>r<?T. \<forall>j<?n. M ! r ! j \<noteq> NaN \<and> P ! r ! j < ?n"
    and base: "\<forall>s<?n. M ! 0 ! s = score_add (np_log (initial m ! s))
                             (np_log (emissions m ! s ! symbol_index m sequence 0))"
    and rec: "\<forall>t j. 0 < t \<and> t < ?T \<and> j < ?n \<longrightarrow>
           M ! t ! j = score_add (candidate m M t j (P ! t ! j))
                          (np_log (emissions m ! j ! symbol_index m sequence t))
         \<and> (\<forall>k<?n. score_le (candidate m M t j k) (candidate m M t j (P ! t ! j)))
         \<and> (\<forall>k<P ! t ! j. score_gt (candidate m M t j (P ! t ! j)) (candidate m M t j k))"
    by blast
  note dec = optimal_path_decode[OF run len rows ok assms(2)]
  have "M \<noteq> []" using len(1) assms(2) by auto
  then have lastM: "last M = M ! (?T - 1)" using len(1) by (simp add: last_conv_nth)
  have rec': "\<forall>t j. 0 < t \<and> t < ?T \<and> j < ?n \<longrightarrow>
           P ! t ! j < ?n
         \<and> M ! t ! j = score_add (candidate m M t j (P ! t ! j))
                          (np_log (emissions m ! j ! symbol_index m sequence t))
         \<and> (\<forall>k<?n. score_le (candidate m M t j k) (candidate m M t j (P ! t ! j)))"
    using rec ok by simp
  have none: "?n = 0 \<longrightarrow> optimal_path sequence m = Inl ValueError"
    using dec(1) by simp
  have some: "0 < ?n \<longrightarrow>
          (\<exists>best. np_argmax (M ! (?T - 1)) = Inr best \<and> best < ?n
             \<and> (?T = 1 \<longrightarrow> optimal_path sequence m =
                   (case label_map m best of
                      None \<Rightarrow> Inl KeyError
                    | Some v \<Rightarrow> (case v of VStr l \<Rightarrow> Inr (M, l) | _ \<Rightarrow> Inl TypeError)))
             \<and> (2 \<le> ?T \<longrightarrow> optimal_path sequence m =
                   (if label_map m best = None \<or> label_map m (P ! (?T - 1) ! best) = None
                    then Inl KeyError else Inl IndexError)))"
  proof
    assume "0 < ?n"
    from dec(2)[OF this] obtain best where
      b: "np_argmax (last M) = Inr best" "best < ?n"
      and one: "?T = 1 \<longrightarrow> optimal_path sequence m =
                   (case label_map m best of
                      None \<Rightarrow> Inl KeyError
                    | Some v \<Rightarrow> (case v of VStr l \<Rightarrow> Inr (M, l) | _ \<Rightarrow> Inl TypeError))"
      and two: "2 \<le> ?T \<longrightarrow> optimal_path sequence m =
                   (if label_map m best = None \<or> label_map m (P ! (?T - 1) ! best) = None
                    then Inl KeyError else Inl IndexError)"
      by (elim exE conjE) (rule that; assumption)
    have b1: "np_argmax (M ! (?T - 1)) = Inr best" using b(1) lastM by simp
    show "\<exists>best. np_argmax (M ! (?T - 1)) = Inr best \<and> best < ?n
             \<and> (?T = 1 \<longrightarrow> optimal_path sequence m =
                   (case label_map m best of
                      None \<Rightarrow> Inl KeyError
                    | Some v \<Rightarrow> (case v of VStr l \<Rightarrow> Inr (M, l) | _ \<Rightarrow> Inl TypeError)))
             \<and> (2 \<le> ?T \<longrightarrow> optimal_path sequence m =
                   (if label_map m best = None \<or> label_map m (P ! (?T - 1) ! best) = None
                    then Inl KeyError else Inl IndexError))"
      by (intro exI[of _ best] conjI) (rule b1 b(2) one two)+
  qed
  show ?thesis
    by (intro exI[of _ M] exI[of _ P] conjI) (rule run len(1) base rec' none some)+
qed

theorem optimal_path_viterbi_table_witness:
  "wf_model toy_model \<and> ''ABB'' \<noteq> [] \<and> set ''ABB'' \<subseteq> dom (char_map toy_model)
   \<and> (\<exists>M P. optimal_path_tables ''ABB'' toy_model = Inr (M, map (map real) P)
         \<and> M = [[Fin 0, NegInf],
                 [NegInf, Fin (ln (1/2) + ln (1/2))],
                 [NegInf, Fin (ln (1/2) + ln (1/2) + ln (1/2))]]
         \<and> M ! 0 ! 0 = score_add (np_log (initial toy_model ! 0))
                          (np_log (emissions toy_model ! 0 ! symbol_index toy_model ''ABB'' 0))
         \<and> M ! 2 ! 1 = score_add (candidate toy_model M 2 1 (P ! 2 ! 1))
                          (np_log (emissions toy_model ! 1 ! symbol_index toy_model ''ABB'' 2))
         \<and> np_argmax (M ! 2) = Inr 1)
   \<and> optimal_path ''ABB'' toy_model = Inl IndexError"
proof -
  have h1: "wf_model toy_model" by (rule toy_model_wf)
  have h2: "''ABB'' \<noteq> []" by simp
  have h3: "set ''ABB'' \<subseteq> dom (char_map toy_model)" by (simp add: toy_model_def)
  have n2: "length (initial toy_model) = 2" by (simp add: toy_model_def)
  from optimal_path_viterbi_table [OF h1 h2 h3] obtain M P where
    run: "optimal_path_tables ''ABB'' toy_model = Inr (M, map (map real) P)"
    and base: "\<forall>s<length (initial toy_model).
          M ! 0 ! s = score_add (np_log (initial toy_model ! s))
                        (np_log (emissions toy_model ! s ! symbol_index toy_model ''ABB'' 0))"
    and rec: "\<forall>t j. 0 < t \<and> t < length ''ABB'' \<and> j < length (initial toy_model) \<longrightarrow>
           P ! t ! j < length (initial toy_model)
         \<and> M ! t ! j = score_add (candidate toy_model M t j (P ! t ! j))
                          (np_log (emissions toy_model ! j ! symbol_index toy_model ''ABB'' t))
         \<and> (\<forall>k<length (initial toy_model).
               score_le (candidate toy_model M t j k) (candidate toy_model M t j (P ! t ! j)))"
    and ret: "0 < length (initial toy_model) \<longrightarrow>
          (\<exists>best. np_argmax (M ! (length ''ABB'' - 1)) = Inr best
             \<and> best < length (initial toy_model)
             \<and> (length ''ABB'' = 1 \<longrightarrow> optimal_path ''ABB'' toy_model =
                   (case label_map toy_model best of
                      None \<Rightarrow> Inl KeyError
                    | Some v \<Rightarrow> (case v of VStr l \<Rightarrow> Inr (M, l) | _ \<Rightarrow> Inl TypeError)))
             \<and> (2 \<le> length ''ABB'' \<longrightarrow> optimal_path ''ABB'' toy_model =
                   (if label_map toy_model best = None
                       \<or> label_map toy_model (P ! (length ''ABB'' - 1) ! best) = None
                    then Inl KeyError else Inl IndexError)))"
    by (elim exE conjE) (rule that; assumption)
  have M: "M = [[Fin 0, NegInf],
                 [NegInf, Fin (ln (1/2) + ln (1/2))],
                 [NegInf, Fin (ln (1/2) + ln (1/2) + ln (1/2))]]"
    using run unfolding toy_model_tables by simp
  have b: "M ! 0 ! 0 = score_add (np_log (initial toy_model ! 0))
                          (np_log (emissions toy_model ! 0 ! symbol_index toy_model ''ABB'' 0))"
    using base by (simp add: toy_model_def)
  have r: "M ! 2 ! 1 = score_add (candidate toy_model M 2 1 (P ! 2 ! 1))
                          (np_log (emissions toy_model ! 1 ! symbol_index toy_model ''ABB'' 2))"
    using rec by (simp add: toy_model_def)
  have n0: "0 < length (initial toy_model)" using n2 by simp
  from ret[rule_format, OF n0] obtain best where
    am0: "np_argmax (M ! (length ''ABB'' - 1)) = Inr best"
    and bn0: "best < length (initial toy_model)"
    and two0: "2 \<le> length ''ABB'' \<longrightarrow> optimal_path ''ABB'' toy_model =
                   (if label_map toy_model best = None
                       \<or> label_map toy_model (P ! (length ''ABB'' - 1) ! best) = None
                    then Inl KeyError else Inl IndexError)"
    by (elim exE conjE) (rule that; assumption)
  have am: "np_argmax (M ! 2) = Inr best" using am0 by (simp add: numeral_2_eq_2)
  have bn: "best < 2" using bn0 n2 by simp
  have two: "optimal_path ''ABB'' toy_model =
                   (if label_map toy_model best = None
                       \<or> label_map toy_model (P ! 2 ! best) = None
                    then Inl KeyError else Inl IndexError)"
    using two0 by (simp add: numeral_2_eq_2)
  have b1: "best = 1" using am unfolding M by (simp add: np_argmax_def)
  have pn: "P ! 2 ! best < 2" using rec bn n2 by simp
  have labs: "\<And>s. s < 2 \<Longrightarrow> label_map toy_model s \<noteq> None"
    by (auto simp: toy_model_def less_2_cases_iff)
  have err: "optimal_path ''ABB'' toy_model = Inl IndexError"
    using two labs[OF bn] labs[OF pn] by simp
  have am1: "np_argmax (M ! 2) = Inr 1" using am b1 by simp
  show ?thesis
    by (intro conjI exI[of _ M] exI[of _ P]) (rule h1 h2 h3 run M b r am1 err)+
qed

section \<open>Verification: state normalizer\<close>

lemma dict_get_Inr: "dict_get d k = Inr v \<longleftrightarrow> map_of d k = Some v"
  by (simp add: dict_get_def split: option.splits)

lemma dict_get_Some: "map_of d k = Some v \<Longrightarrow> dict_get d k = Inr v"
  by (simp add: dict_get_def)

lemma map_of_in_keys: "map_of d k = Some v \<Longrightarrow> k \<in> fst ` set d"
  by (metis map_of_eq_None_iff option.distinct(1))

lemma keys_update_present: "k \<in> fst ` set d \<Longrightarrow> map fst (AList.update k v d) = map fst d"
  by (simp add: update_keys)

lemma tie_trans_effect:
  assumes "tie_trans s name = Inr s1"
  shows "map fst s1 = map fst s"
    and "n \<noteq> name \<Longrightarrow> map_of s1 n = map_of s n"
    and "\<exists>st st1. map_of s name = Some st \<and> map_of s1 name = Some st1
           \<and> (\<forall>f. f \<noteq> ''trans'' \<longrightarrow> map_of st1 f = map_of st f)"
proof -
  from assms obtain st where st: "map_of s name = Some st"
    by (auto simp: tie_trans_def ebind_eq_Inr dict_get_Inr)
  then have k: "name \<in> fst ` set s" by (rule map_of_in_keys)
  have "s1 = s \<or> (\<exists>v. s1 = AList.update name (AList.update ''trans'' v st) s)"
    using assms st
    by (auto simp: tie_trans_def ebind_eq_Inr dict_get_Inr split: if_splits)
  then consider "s1 = s" | v where "s1 = AList.update name (AList.update ''trans'' v st) s"
    by blast
  then have r: "map fst s1 = map fst s \<and> (n \<noteq> name \<longrightarrow> map_of s1 n = map_of s n)
      \<and> (\<exists>st1. map_of s1 name = Some st1
           \<and> (\<forall>f. f \<noteq> ''trans'' \<longrightarrow> map_of st1 f = map_of st f))"
  proof cases
    case 1
    then show ?thesis using st by simp
  next
    case 2
    then show ?thesis using keys_update_present[OF k] by (simp add: update_conv')
  qed
  show "map fst s1 = map fst s" using r by simp
  show "n \<noteq> name \<Longrightarrow> map_of s1 n = map_of s n" using r by simp
  show "\<exists>st st1. map_of s name = Some st \<and> map_of s1 name = Some st1
           \<and> (\<forall>f. f \<noteq> ''trans'' \<longrightarrow> map_of st1 f = map_of st f)"
    using r st by blast
qed

lemma tie_letter_effect:
  assumes "tie_letter s name = Inr s1"
  shows "map fst s1 = map fst s"
    and "n \<noteq> name \<Longrightarrow> map_of s1 n = map_of s n"
    and "\<exists>st st1. map_of s name = Some st \<and> map_of s1 name = Some st1
           \<and> (\<forall>f. f \<noteq> ''only'' \<longrightarrow> map_of st1 f = map_of st f)"
proof -
  from assms obtain st where st: "map_of s name = Some st"
    by (auto simp: tie_letter_def ebind_eq_Inr dict_get_Inr)
  then have k: "name \<in> fst ` set s" by (rule map_of_in_keys)
  have "s1 = s \<or> (\<exists>v. s1 = AList.update name (AList.update ''only'' v st) s)"
    using assms st
    by (auto simp: tie_letter_def ebind_eq_Inr dict_get_Inr split: if_splits)
  then consider "s1 = s" | v where "s1 = AList.update name (AList.update ''only'' v st) s"
    by blast
  then have r: "map fst s1 = map fst s \<and> (n \<noteq> name \<longrightarrow> map_of s1 n = map_of s n)
      \<and> (\<exists>st1. map_of s1 name = Some st1
           \<and> (\<forall>f. f \<noteq> ''only'' \<longrightarrow> map_of st1 f = map_of st f))"
  proof cases
    case 1
    then show ?thesis using st by simp
  next
    case 2
    then show ?thesis using keys_update_present[OF k] by (simp add: update_conv')
  qed
  show "map fst s1 = map fst s" using r by simp
  show "n \<noteq> name \<Longrightarrow> map_of s1 n = map_of s n" using r by simp
  show "\<exists>st st1. map_of s name = Some st \<and> map_of s1 name = Some st1
           \<and> (\<forall>f. f \<noteq> ''only'' \<longrightarrow> map_of st1 f = map_of st f)"
    using r st by blast
qed

lemma tie_trans_tied:
  assumes "tie_trans s name = Inr s1" "map_of s name = Some st"
    "map_of st ''tied_trans'' = Some (VStr X)"
  shows "\<exists>xs parent_trans vals to_states keys.
           map_of s X = Some xs \<and> map_of xs ''trans'' = Some parent_trans
         \<and> py_values parent_trans = Inr vals
         \<and> map_of st ''trans'' = Some to_states \<and> py_iter to_states = Inr keys
         \<and> s1 = AList.update name (AList.update ''trans'' (zip_dict keys vals) st) s"
proof -
  have "''tied_trans'' \<in> fst ` set st" using assms(3) by (rule map_of_in_keys)
  then show ?thesis
    using assms
    by (auto simp: tie_trans_def ebind_eq_Inr dict_get_Inr)
qed

lemma tie_letter_tied:
  assumes "tie_letter s name = Inr s1" "map_of s name = Some st"
    "map_of st ''tied_letter'' = Some (VStr X)"
  shows "\<exists>xs parent_only copy.
           map_of s X = Some xs \<and> map_of xs ''only'' = Some parent_only
         \<and> py_dict parent_only = Inr copy
         \<and> s1 = AList.update name (AList.update ''only'' copy st) s"
proof -
  have "''tied_letter'' \<in> fst ` set st" using assms(3) by (rule map_of_in_keys)
  then show ?thesis
    using assms
    by (auto simp: tie_letter_def ebind_eq_Inr dict_get_Inr)
qed

lemma normalize_state_effect:
  assumes "normalize_state s name = Inr s'"
  shows "map fst s' = map fst s" and "n \<noteq> name \<Longrightarrow> map_of s' n = map_of s n"
proof -
  from assms obtain s1 where a: "tie_trans s name = Inr s1" and b: "tie_letter s1 name = Inr s'"
    by (auto simp: normalize_state_def ebind_eq_Inr)
  show "map fst s' = map fst s"
    using tie_trans_effect(1)[OF a] tie_letter_effect(1)[OF b] by simp
  show "n \<noteq> name \<Longrightarrow> map_of s' n = map_of s n"
    using tie_trans_effect(2)[OF a] tie_letter_effect(2)[OF b] by simp
qed

lemma normalize_loop_effect:
  "normalize_loop ns s = Inr s' \<Longrightarrow>
     map fst s' = map fst s \<and> (\<forall>n. n \<notin> set ns \<longrightarrow> map_of s' n = map_of s n)"
proof (induction ns arbitrary: s)
  case Nil
  then show ?case by simp
next
  case (Cons a ns)
  then obtain s1 where a: "normalize_state s a = Inr s1" and b: "normalize_loop ns s1 = Inr s'"
    by (auto simp: ebind_eq_Inr)
  from Cons.IH[OF b] normalize_state_effect[OF a] show ?case by auto
qed

lemma normalize_loop_append:
  "normalize_loop (a @ b) s = ebind (normalize_loop a s) (normalize_loop b)"
proof (induction a arbitrary: s)
  case Nil
  then show ?case by simp
next
  case (Cons x a)
  show ?case
    by (cases "normalize_state s x") (simp_all add: Cons.IH)
qed

lemma normalize_states_split:
  assumes "normalize_states states = Inr final" "map fst states = pre @ name # post"
    "distinct (map fst states)"
  shows "\<exists>s1 s2. normalize_loop pre states = Inr s1 \<and> normalize_state s1 name = Inr s2
     \<and> normalize_loop post s2 = Inr final
     \<and> (\<forall>n. n \<notin> set pre \<longrightarrow> map_of s1 n = map_of states n)
     \<and> (\<forall>n. n \<in> set pre \<longrightarrow> map_of final n = map_of s1 n)
     \<and> (\<forall>n. n \<noteq> name \<longrightarrow> map_of s2 n = map_of s1 n)
     \<and> map_of final name = map_of s2 name"
proof -
  from assms(1,2) obtain s1 s2 where
    a: "normalize_loop pre states = Inr s1" and b: "normalize_state s1 name = Inr s2"
    and c: "normalize_loop post s2 = Inr final"
    by (auto simp: normalize_states_def normalize_loop_append ebind_eq_Inr)
  have d: "name \<notin> set pre" "name \<notin> set post" "\<forall>n\<in>set pre. n \<noteq> name \<and> n \<notin> set post"
    using assms(2,3) by auto
  note ea = normalize_loop_effect[OF a] and eb = normalize_state_effect[OF b]
    and ec = normalize_loop_effect[OF c]
  have "\<forall>n. n \<in> set pre \<longrightarrow> map_of final n = map_of s1 n"
    using ec eb(2) d(3) by auto
  moreover have "map_of final name = map_of s2 name" using ec d(2) by simp
  ultimately show ?thesis using a b c ea eb(2) by blast
qed

lemma update_new_key: "k \<notin> fst ` set d \<Longrightarrow> AList.update k v d = d @ [(k, v)]"
  by (induction d) auto

lemma dict_of_pairs_distinct_aux:
  "distinct (map fst (acc @ ps)) \<Longrightarrow>
     foldl (\<lambda>d kv. AList.update (fst kv) (snd kv) d) acc ps = acc @ ps"
proof (induction ps arbitrary: acc)
  case Nil
  then show ?case by simp
next
  case (Cons p ps)
  have "fst p \<notin> fst ` set acc" using Cons.prems by auto
  then have "AList.update (fst p) (snd p) acc = acc @ [p]" by (simp add: update_new_key)
  moreover have "distinct (map fst ((acc @ [p]) @ ps))" using Cons.prems by simp
  ultimately show ?case using Cons.IH[of "acc @ [p]"] by simp
qed

lemma dict_of_pairs_distinct: "distinct (map fst ps) \<Longrightarrow> dict_of_pairs ps = ps"
  using dict_of_pairs_distinct_aux[of "[]" ps] by (simp add: dict_of_pairs_def)

lemma distinct_zip_keys: "distinct ks \<Longrightarrow> distinct (map fst (zip ks vs))"
  by (simp add: distinct_conv_nth)

lemma map_of_zip_nth_min:
  "distinct ks \<Longrightarrow> i < length ks \<Longrightarrow> i < length vs \<Longrightarrow> map_of (zip ks vs) (ks ! i) = Some (vs ! i)"
proof (induction ks arbitrary: vs i)
  case Nil
  then show ?case by simp
next
  case (Cons k ks)
  then obtain v vs' where vs: "vs = v # vs'" by (cases vs) auto
  show ?case
  proof (cases i)
    case 0
    then show ?thesis using vs by simp
  next
    case (Suc j)
    then have "ks ! j \<noteq> k" using Cons.prems by auto
    then show ?thesis using Suc vs Cons.IH[of j vs'] Cons.prems by simp
  qed
qed

lemma tie_trans_visit:
  assumes "distinct (map fst states)" "normalize_states states = Inr final"
    and "map fst states = pre @ name # post" "map_of states name = Some st"
    and "map_of st ''tied_trans'' = Some (VStr X)"
  shows "\<exists>xs parent_trans vals to_states keys fs.
           map_of (if X \<in> set pre then final else states) X = Some xs
         \<and> map_of xs ''trans'' = Some parent_trans \<and> py_values parent_trans = Inr vals
         \<and> map_of st ''trans'' = Some to_states \<and> py_iter to_states = Inr keys
         \<and> map_of final name = Some fs \<and> map_of fs ''trans'' = Some (zip_dict keys vals)
         \<and> (\<forall>targets pm. to_states = VList targets \<and> parent_trans = VMap pm \<longrightarrow>
               zip_dict keys vals = VMap (dict_of_pairs (zip targets (map snd pm)))
             \<and> (distinct targets \<longrightarrow>
                   dict_of_pairs (zip targets (map snd pm)) = zip targets (map snd pm)))"
proof -
  from normalize_states_split[OF assms(2,3,1)] obtain s1 s2 where
    b: "normalize_state s1 name = Inr s2"
    and pre: "\<forall>n. n \<notin> set pre \<longrightarrow> map_of s1 n = map_of states n"
    and fin: "\<forall>n. n \<in> set pre \<longrightarrow> map_of final n = map_of s1 n"
    and fname: "map_of final name = map_of s2 name"
    by blast
  have npre: "name \<notin> set pre" using assms(1,3) by auto
  then have st1: "map_of s1 name = Some st" using pre assms(4) by simp
  from b obtain sa where ta: "tie_trans s1 name = Inr sa" and tb: "tie_letter sa name = Inr s2"
    by (auto simp: normalize_state_def ebind_eq_Inr)
  from tie_trans_tied[OF ta st1 assms(5)] obtain xs parent_trans vals to_states keys where
    x: "map_of s1 X = Some xs" "map_of xs ''trans'' = Some parent_trans"
      "py_values parent_trans = Inr vals"
      "map_of st ''trans'' = Some to_states" "py_iter to_states = Inr keys"
    and sa: "sa = AList.update name (AList.update ''trans'' (zip_dict keys vals) st) s1"
    by blast
  have visit: "map_of (if X \<in> set pre then final else states) X = Some xs"
    using x(1) pre fin by auto
  have sa_name: "map_of sa name = Some (AList.update ''trans'' (zip_dict keys vals) st)"
    unfolding sa by (simp add: update_conv')
  from tie_letter_effect(3)[OF tb] sa_name obtain fs where
    fs: "map_of s2 name = Some fs"
      "\<forall>f. f \<noteq> ''only'' \<longrightarrow> map_of fs f = map_of (AList.update ''trans'' (zip_dict keys vals) st) f"
    by auto
  have ftr: "map_of fs ''trans'' = Some (zip_dict keys vals)"
    using fs(2) by (simp add: update_conv')
  have pos: "\<forall>targets pm. to_states = VList targets \<and> parent_trans = VMap pm \<longrightarrow>
               zip_dict keys vals = VMap (dict_of_pairs (zip targets (map snd pm)))
             \<and> (distinct targets \<longrightarrow>
                   dict_of_pairs (zip targets (map snd pm)) = zip targets (map snd pm))"
    using x(3,5) by (auto simp: zip_dict_def dict_of_pairs_distinct distinct_zip_keys)
  show ?thesis
    using visit x(2,3,4,5) fname fs(1) ftr pos by auto
qed

lemma tied_states_normalized:
  "normalize_states tied_states =
     Inr [(''X'', [(''trans'', VMap [(''B'', 3/10), (''A'', 7/10)]),
                   (''only'', VMap [(''a'', 1/4), (''b'', 3/4)])]),
          (''Y'', [(''trans'', VMap [(''A'', 3/10), (''B'', 7/10)]),
                   (''tied_trans'', VStr ''X''),
                   (''tied_letter'', VStr ''X''),
                   (''only'', VMap [(''a'', 1/4), (''b'', 3/4)])])]"
  by (simp add: normalize_states_def tied_states_def normalize_state_def tie_trans_def
      tie_letter_def dict_get_def zip_dict_def dict_of_pairs_def)

lemma chain_states_reversed:
  "normalize_states (rev chain_states) =
     Inr [(''C'', [(''trans'', VMap [(''A'', 1)])]),
          (''B'', [(''trans'', VMap [(''A'', 1)]), (''tied_trans'', VStr ''C'')]),
          (''A'', [(''trans'', VMap [(''A'', 1)]), (''tied_trans'', VStr ''B'')])]"
  by (simp add: normalize_states_def chain_states_def normalize_state_def tie_trans_def
      tie_letter_def dict_get_def zip_dict_def dict_of_pairs_def)

text \<open>
  Claim C2. Let \<open>states\<close> be a dictionary that \<open>normalize_states\<close> turns into \<open>final\<close>, and
  \<open>name\<close> a state with \<^verbatim>\<open>tied_trans\<close> \<open>X\<close>. Then \<open>X\<close> has a \<^verbatim>\<open>trans\<close> with values when
  \<open>name\<close> is visited (that of \<open>final\<close> if \<open>X\<close> comes before \<open>name\<close>, that of \<open>states\<close>
  otherwise), and the \<^verbatim>\<open>trans\<close> of \<open>name\<close> in \<open>final\<close> is \<^verbatim>\<open>dict(zip(...))\<close> of what \<open>name\<close>
  declared and those values. For a declared target list and a parent dictionary this is
  the dictionary of the zipped pairs; with distinct targets it is the zipped list itself,
  so the \<open>i\<close>-th target has the \<open>i\<close>-th value of \<open>X\<close> in key-insertion order, whatever the
  keys of \<open>X\<close> are.
\<close>

theorem tied_trans_positional_zip:
  assumes "distinct (map fst states)" "normalize_states states = Inr final"
    and "map fst states = pre @ name # post" "map_of states name = Some st"
    and "map_of st ''tied_trans'' = Some (VStr X)"
  shows "\<exists>xs parent_trans vals to_states keys fs.
           map_of (if X \<in> set pre then final else states) X = Some xs
         \<and> map_of xs ''trans'' = Some parent_trans \<and> py_values parent_trans = Inr vals
         \<and> map_of st ''trans'' = Some to_states \<and> py_iter to_states = Inr keys
         \<and> map_of final name = Some fs \<and> map_of fs ''trans'' = Some (zip_dict keys vals)
         \<and> (\<forall>targets pm. to_states = VList targets \<and> parent_trans = VMap pm \<longrightarrow>
               zip_dict keys vals = VMap (dict_of_pairs (zip targets (map snd pm)))
             \<and> (distinct targets \<longrightarrow>
                   dict_of_pairs (zip targets (map snd pm)) = zip targets (map snd pm)
                 \<and> (\<forall>i. i < length targets \<and> i < length pm \<longrightarrow>
                       map_of (zip targets (map snd pm)) (targets ! i) = Some (snd (pm ! i)))))"
proof -
  from tie_trans_visit[OF assms] obtain xs parent_trans vals to_states keys fs where
    a: "map_of (if X \<in> set pre then final else states) X = Some xs"
      "map_of xs ''trans'' = Some parent_trans" "py_values parent_trans = Inr vals"
      "map_of st ''trans'' = Some to_states" "py_iter to_states = Inr keys"
      "map_of final name = Some fs" "map_of fs ''trans'' = Some (zip_dict keys vals)"
    and b: "\<forall>targets pm. to_states = VList targets \<and> parent_trans = VMap pm \<longrightarrow>
               zip_dict keys vals = VMap (dict_of_pairs (zip targets (map snd pm)))
             \<and> (distinct targets \<longrightarrow>
                   dict_of_pairs (zip targets (map snd pm)) = zip targets (map snd pm))"
    by (elim exE conjE) (rule that; assumption)
  have c: "\<forall>targets pm. distinct targets \<longrightarrow> (\<forall>i. i < length targets \<and> i < length (pm :: (string \<times> real) list) \<longrightarrow>
                       map_of (zip targets (map snd pm)) (targets ! i) = Some (snd (pm ! i)))"
    by (simp add: map_of_zip_nth_min)
  show ?thesis using a b c by blast
qed

theorem tied_trans_positional_zip_witness:
  "distinct (map fst tied_states)
   \<and> map fst tied_states = [''X''] @ ''Y'' # []
   \<and> map_of tied_states ''Y'' =
        Some [(''trans'', VList [''A'', ''B'']), (''tied_trans'', VStr ''X''),
              (''tied_letter'', VStr ''X''), (''only'', VMap [(''c'', 1)])]
   \<and> (\<exists>final fs. normalize_states tied_states = Inr final
         \<and> map_of final ''X'' =
              Some [(''trans'', VMap [(''B'', 3/10), (''A'', 7/10)]),
                    (''only'', VMap [(''a'', 1/4), (''b'', 3/4)])]
         \<and> map_of final ''Y'' = Some fs
         \<and> map_of fs ''trans'' = Some (VMap [(''A'', 3/10), (''B'', 7/10)]))"
proof -
  let ?st = "[(''trans'', VList [''A'', ''B'']), (''tied_trans'', VStr ''X''),
              (''tied_letter'', VStr ''X''), (''only'', VMap [(''c'', 1)])]"
  let ?final = "[(''X'', [(''trans'', VMap [(''B'', 3/10), (''A'', 7/10)]),
                   (''only'', VMap [(''a'', 1/4), (''b'', 3/4)])]),
          (''Y'', [(''trans'', VMap [(''A'', 3/10), (''B'', 7/10)]),
                   (''tied_trans'', VStr ''X''),
                   (''tied_letter'', VStr ''X''),
                   (''only'', VMap [(''a'', 1/4), (''b'', 3/4)])])]"
  have h1: "distinct (map fst tied_states)" by (simp add: tied_states_def)
  have h2: "normalize_states tied_states = Inr ?final" by (rule tied_states_normalized)
  have h3: "map fst tied_states = [''X''] @ ''Y'' # []" by (simp add: tied_states_def)
  have h4: "map_of tied_states ''Y'' = Some ?st" by (simp add: tied_states_def)
  have h5: "map_of ?st ''tied_trans'' = Some (VStr ''X'')" by simp
  from tied_trans_positional_zip [OF h1 h2 h3 h4 h5]
  obtain xs parent_trans vals to_states keys fs where
    a: "map_of (if ''X'' \<in> set [''X''] then ?final else tied_states) ''X'' = Some xs"
      "map_of xs ''trans'' = Some parent_trans" "py_values parent_trans = Inr vals"
      "map_of ?st ''trans'' = Some to_states" "py_iter to_states = Inr keys"
      "map_of ?final ''Y'' = Some fs" "map_of fs ''trans'' = Some (zip_dict keys vals)"
    by (elim exE conjE) (rule that; assumption)
  have xs: "xs = [(''trans'', VMap [(''B'', 3/10), (''A'', 7/10)]),
                   (''only'', VMap [(''a'', 1/4), (''b'', 3/4)])]"
    using a(1) by simp
  have pt: "parent_trans = VMap [(''B'', 3/10), (''A'', 7/10)]" using a(2) unfolding xs by simp
  have vals: "vals = Inl [3/10, 7/10]" using a(3) unfolding pt by simp
  have ts: "to_states = VList [''A'', ''B'']" using a(4) by simp
  have keys: "keys = [''A'', ''B'']" using a(5) unfolding ts by simp
  have "zip_dict keys vals = VMap [(''A'', 3/10), (''B'', 7/10)]"
    unfolding keys vals by (simp add: zip_dict_def dict_of_pairs_def)
  then have "map_of fs ''trans'' = Some (VMap [(''A'', 3/10), (''B'', 7/10)])"
    using a(7) by simp
  moreover have "map_of ?final ''X'' =
              Some [(''trans'', VMap [(''B'', 3/10), (''A'', 7/10)]),
                    (''only'', VMap [(''a'', 1/4), (''b'', 3/4)])]" by simp
  ultimately have "\<exists>final fs. normalize_states tied_states = Inr final
         \<and> map_of final ''X'' =
              Some [(''trans'', VMap [(''B'', 3/10), (''A'', 7/10)]),
                    (''only'', VMap [(''a'', 1/4), (''b'', 3/4)])]
         \<and> map_of final ''Y'' = Some fs
         \<and> map_of fs ''trans'' = Some (VMap [(''A'', 3/10), (''B'', 7/10)])"
    using h2 a(6) by blast
  with h1 h3 h4 show ?thesis by blast
qed

text \<open>
  Claim C5. Let \<open>states\<close> be a dictionary that \<open>normalize_states\<close> turns into \<open>final\<close>, and
  \<open>name\<close> a state with \<^verbatim>\<open>tied_letter\<close> \<open>X\<close>. Then \<open>X\<close> has an \<^verbatim>\<open>only\<close> when \<open>name\<close> is visited
  (that of \<open>final\<close> if \<open>X\<close> comes before \<open>name\<close>, that of \<open>states\<close> otherwise), and the
  \<^verbatim>\<open>only\<close> of \<open>name\<close> in \<open>final\<close> is \<^verbatim>\<open>dict(...)\<close> of it, whatever \<open>name\<close> had under \<^verbatim>\<open>only\<close>
  before: for a dictionary, the same keys and values in the same order.
\<close>

theorem tied_letter_copies_only:
  assumes "distinct (map fst states)" "normalize_states states = Inr final"
    and "map fst states = pre @ name # post" "map_of states name = Some st"
    and "map_of st ''tied_letter'' = Some (VStr X)"
  shows "\<exists>xs parent_only copy fs.
           map_of (if X \<in> set pre then final else states) X = Some xs
         \<and> map_of xs ''only'' = Some parent_only \<and> py_dict parent_only = Inr copy
         \<and> map_of final name = Some fs \<and> map_of fs ''only'' = Some copy
         \<and> (\<forall>m. parent_only = VMap m \<longrightarrow> copy = VMap m)"
proof -
  from normalize_states_split[OF assms(2,3,1)] obtain s1 s2 where
    b: "normalize_state s1 name = Inr s2"
    and pre: "\<forall>n. n \<notin> set pre \<longrightarrow> map_of s1 n = map_of states n"
    and fin: "\<forall>n. n \<in> set pre \<longrightarrow> map_of final n = map_of s1 n"
    and fname: "map_of final name = map_of s2 name"
    by blast
  have npre: "name \<notin> set pre" using assms(1,3) by auto
  then have st1: "map_of s1 name = Some st" using pre assms(4) by simp
  from b obtain sa where ta: "tie_trans s1 name = Inr sa" and tb: "tie_letter sa name = Inr s2"
    by (auto simp: normalize_state_def ebind_eq_Inr)
  from tie_trans_effect(3)[OF ta] st1 obtain sta where
    sta: "map_of sa name = Some sta" "\<forall>f. f \<noteq> ''trans'' \<longrightarrow> map_of sta f = map_of st f"
    by auto
  have tl: "map_of sta ''tied_letter'' = Some (VStr X)" using sta(2) assms(5) by simp
  from tie_letter_tied[OF tb sta(1) tl] obtain xs' parent_only copy where
    x: "map_of sa X = Some xs'" "map_of xs' ''only'' = Some parent_only"
      "py_dict parent_only = Inr copy"
    and s2: "s2 = AList.update name (AList.update ''only'' copy sta) sa"
    by blast
  have "\<exists>xs. map_of s1 X = Some xs \<and> map_of xs ''only'' = Some parent_only"
  proof (cases "X = name")
    case True
    then have "xs' = sta" using x(1) sta(1) by simp
    then show ?thesis using True st1 sta(2) x(2) by simp
  next
    case False
    then have "map_of s1 X = Some xs'" using tie_trans_effect(2)[OF ta False] x(1) by simp
    then show ?thesis using x(2) by blast
  qed
  then obtain xs where xs: "map_of s1 X = Some xs" "map_of xs ''only'' = Some parent_only"
    by blast
  have visit: "map_of (if X \<in> set pre then final else states) X = Some xs"
    using xs(1) pre fin by auto
  have fo: "map_of final name = Some (AList.update ''only'' copy sta)"
    using fname unfolding s2 by (simp add: update_conv')
  have "map_of (AList.update ''only'' copy sta) ''only'' = Some copy"
    by (simp add: update_conv')
  moreover have "\<forall>m. parent_only = VMap m \<longrightarrow> copy = VMap m" using x(3) by auto
  ultimately show ?thesis using visit xs(2) x(3) fo by blast
qed

theorem tied_letter_copies_only_witness:
  "distinct (map fst tied_states)
   \<and> map fst tied_states = [''X''] @ ''Y'' # []
   \<and> map_of tied_states ''Y'' =
        Some [(''trans'', VList [''A'', ''B'']), (''tied_trans'', VStr ''X''),
              (''tied_letter'', VStr ''X''), (''only'', VMap [(''c'', 1)])]
   \<and> (\<exists>final fs. normalize_states tied_states = Inr final
         \<and> map_of final ''X'' =
              Some [(''trans'', VMap [(''B'', 3/10), (''A'', 7/10)]),
                    (''only'', VMap [(''a'', 1/4), (''b'', 3/4)])]
         \<and> map_of final ''Y'' = Some fs
         \<and> map_of fs ''only'' = Some (VMap [(''a'', 1/4), (''b'', 3/4)]))"
proof -
  let ?st = "[(''trans'', VList [''A'', ''B'']), (''tied_trans'', VStr ''X''),
              (''tied_letter'', VStr ''X''), (''only'', VMap [(''c'', 1)])]"
  let ?final = "[(''X'', [(''trans'', VMap [(''B'', 3/10), (''A'', 7/10)]),
                   (''only'', VMap [(''a'', 1/4), (''b'', 3/4)])]),
          (''Y'', [(''trans'', VMap [(''A'', 3/10), (''B'', 7/10)]),
                   (''tied_trans'', VStr ''X''),
                   (''tied_letter'', VStr ''X''),
                   (''only'', VMap [(''a'', 1/4), (''b'', 3/4)])])]"
  have h1: "distinct (map fst tied_states)" by (simp add: tied_states_def)
  have h2: "normalize_states tied_states = Inr ?final" by (rule tied_states_normalized)
  have h3: "map fst tied_states = [''X''] @ ''Y'' # []" by (simp add: tied_states_def)
  have h4: "map_of tied_states ''Y'' = Some ?st" by (simp add: tied_states_def)
  have h5: "map_of ?st ''tied_letter'' = Some (VStr ''X'')" by simp
  from tied_letter_copies_only [OF h1 h2 h3 h4 h5]
  obtain xs parent_only copy fs where
    a: "map_of (if ''X'' \<in> set [''X''] then ?final else tied_states) ''X'' = Some xs"
      "map_of xs ''only'' = Some parent_only" "py_dict parent_only = Inr copy"
      "map_of ?final ''Y'' = Some fs" "map_of fs ''only'' = Some copy"
      "\<forall>m. parent_only = VMap m \<longrightarrow> copy = VMap m"
    by (elim exE conjE) (rule that; assumption)
  have xs: "xs = [(''trans'', VMap [(''B'', 3/10), (''A'', 7/10)]),
                   (''only'', VMap [(''a'', 1/4), (''b'', 3/4)])]"
    using a(1) by simp
  have po: "parent_only = VMap [(''a'', 1/4), (''b'', 3/4)]" using a(2) unfolding xs by simp
  then have "copy = VMap [(''a'', 1/4), (''b'', 3/4)]" using a(6) by simp
  then have "map_of fs ''only'' = Some (VMap [(''a'', 1/4), (''b'', 3/4)])"
    using a(5) by simp
  moreover have "map_of ?final ''X'' =
              Some [(''trans'', VMap [(''B'', 3/10), (''A'', 7/10)]),
                    (''only'', VMap [(''a'', 1/4), (''b'', 3/4)])]" by simp
  ultimately have "\<exists>final fs. normalize_states tied_states = Inr final
         \<and> map_of final ''X'' =
              Some [(''trans'', VMap [(''B'', 3/10), (''A'', 7/10)]),
                    (''only'', VMap [(''a'', 1/4), (''b'', 3/4)])]
         \<and> map_of final ''Y'' = Some fs
         \<and> map_of fs ''only'' = Some (VMap [(''a'', 1/4), (''b'', 3/4)])"
    using h2 a(4) by blast
  with h1 h3 h4 show ?thesis by blast
qed

text \<open>
  Claim C10. The loop visits the states once, in insertion order. If a state \<open>name\<close> is
  tied to a state \<open>X\<close> that the loop has not visited before it (\<open>X\<close> is \<open>name\<close> or comes
  later) and the \<^verbatim>\<open>trans\<close> of \<open>X\<close> is still a bare list, as that of a state with an
  unresolved \<^verbatim>\<open>tied_trans\<close> is, then \<open>normalize_states\<close> raises: \<^verbatim>\<open>AttributeError\<close> when
  \<open>name\<close> is the first state and has a \<^verbatim>\<open>trans\<close>. The chain is not followed.
\<close>

theorem tied_trans_chain_fails:
  assumes "distinct (map fst states)" "map fst states = pre @ name # post"
    and "map_of states name = Some st" "map_of st ''tied_trans'' = Some (VStr X)"
    and "X \<in> set (name # post)" "map_of states X = Some xs"
    and "map_of xs ''trans'' = Some (VList l)"
  shows "(\<exists>e. normalize_states states = Inl e)
     \<and> (pre = [] \<and> ''trans'' \<in> fst ` set st \<longrightarrow> normalize_states states = Inl AttributeError)"
proof -
  have npre: "name \<notin> set pre" "X \<notin> set pre" using assms(1,2,5) by auto
  have tt: "''tied_trans'' \<in> fst ` set st" using assms(4) by (rule map_of_in_keys)
  have step: "\<And>s1. map_of s1 name = Some st \<Longrightarrow> map_of s1 X = Some xs \<Longrightarrow>
      (\<exists>e. tie_trans s1 name = Inl e)
      \<and> (''trans'' \<in> fst ` set st \<longrightarrow> tie_trans s1 name = Inl AttributeError)"
  proof -
    fix s1 assume a: "map_of s1 name = Some st" "map_of s1 X = Some xs"
    show "(\<exists>e. tie_trans s1 name = Inl e)
      \<and> (''trans'' \<in> fst ` set st \<longrightarrow> tie_trans s1 name = Inl AttributeError)"
    proof (cases "map_of st ''trans''")
      case None
      then have "''trans'' \<notin> fst ` set st" by (simp add: map_of_eq_None_iff)
      moreover have "tie_trans s1 name = Inl KeyError"
        using a tt assms(4) None by (simp add: tie_trans_def dict_get_def)
      ultimately show ?thesis by simp
    next
      case (Some to_states)
      have "tie_trans s1 name = Inl AttributeError"
        using a tt assms(4,7) Some by (simp add: tie_trans_def dict_get_def)
      then show ?thesis by simp
    qed
  qed
  have first: "\<exists>e. normalize_states states = Inl e"
  proof (cases "normalize_loop pre states")
    case (Inl e)
    then show ?thesis
      by (simp add: normalize_states_def assms(2) normalize_loop_append)
  next
    case (Inr s1)
    from normalize_loop_effect[OF Inr] npre assms(3,6)
    have "map_of s1 name = Some st" "map_of s1 X = Some xs" by simp_all
    from step[OF this] obtain e where "tie_trans s1 name = Inl e" by blast
    then show ?thesis
      using Inr by (simp add: normalize_states_def assms(2) normalize_loop_append
          normalize_state_def)
  qed
  have second: "pre = [] \<and> ''trans'' \<in> fst ` set st \<longrightarrow> normalize_states states = Inl AttributeError"
  proof
    assume p: "pre = [] \<and> ''trans'' \<in> fst ` set st"
    from step[OF assms(3,6)] p have "tie_trans states name = Inl AttributeError" by simp
    then show "normalize_states states = Inl AttributeError"
      using p by (simp add: normalize_states_def assms(2) normalize_state_def)
  qed
  show ?thesis using first second by blast
qed

theorem tied_trans_chain_fails_witness:
  "distinct (map fst chain_states) \<and> map fst chain_states = [] @ ''A'' # [''B'', ''C'']
   \<and> map_of chain_states ''A'' = Some [(''trans'', VList [''A'']), (''tied_trans'', VStr ''B'')]
   \<and> map_of [(''trans'', VList [''A'']), (''tied_trans'', VStr ''B'')] ''tied_trans''
        = Some (VStr ''B'')
   \<and> ''B'' \<in> set (''A'' # [''B'', ''C''])
   \<and> map_of chain_states ''B'' = Some [(''trans'', VList [''A'']), (''tied_trans'', VStr ''C'')]
   \<and> map_of [(''trans'', VList [''A'']), (''tied_trans'', VStr ''C'')] ''trans''
        = Some (VList [''A''])
   \<and> normalize_states chain_states = Inl AttributeError
   \<and> (\<exists>s. normalize_states (rev chain_states) = Inr s)"
proof -
  have h1: "distinct (map fst chain_states)" by (simp add: chain_states_def)
  have h2: "map fst chain_states = [] @ ''A'' # [''B'', ''C'']" by (simp add: chain_states_def)
  have h3: "map_of chain_states ''A''
      = Some [(''trans'', VList [''A'']), (''tied_trans'', VStr ''B'')]"
    by (simp add: chain_states_def)
  have h4: "map_of [(''trans'', VList [''A'']), (''tied_trans'', VStr ''B'')] ''tied_trans''
        = Some (VStr ''B'')" by simp
  have h5: "''B'' \<in> set (''A'' # [''B'', ''C''])" by simp
  have h6: "map_of chain_states ''B''
      = Some [(''trans'', VList [''A'']), (''tied_trans'', VStr ''C'')]"
    by (simp add: chain_states_def)
  have h7: "map_of [(''trans'', VList [''A'']), (''tied_trans'', VStr ''C'')] ''trans''
        = Some (VList [''A''])" by simp
  from tied_trans_chain_fails [OF h1 h2 h3 h4 h5 h6 h7]
  have "normalize_states chain_states = Inl AttributeError" by simp
  moreover have "\<exists>s. normalize_states (rev chain_states) = Inr s"
    by (simp add: chain_states_reversed)
  ultimately show ?thesis using h1 h2 h3 h4 h5 h6 h7 by simp
qed

section \<open>Verification: grammar parser\<close>


















section \<open>Verification: matrix builder\<close>

lemma index_map_snoc: "index_map (xs @ [x]) = (index_map xs)(x \<mapsto> length xs)"
  by (simp add: index_map_def enumerate_append_eq)

lemma index_map_Nil [simp]: "index_map [] = Map.empty"
  by (simp add: index_map_def)

lemma index_map_Some: "index_map xs x = Some i \<Longrightarrow> i < length xs \<and> xs ! i = x"
proof (induction xs arbitrary: i rule: rev_induct)
  case Nil
  then show ?case by simp
next
  case (snoc y ys)
  then show ?case
    by (auto simp: index_map_snoc nth_append less_Suc_eq split: if_splits)
qed

lemma index_map_None: "index_map xs x = None \<longleftrightarrow> x \<notin> set xs"
  by (induction xs rule: rev_induct) (auto simp: index_map_snoc)

lemma index_map_distinct: "distinct xs \<Longrightarrow> i < length xs \<Longrightarrow> index_map xs (xs ! i) = Some i"
proof -
  assume d: "distinct xs" and i: "i < length xs"
  then have "xs ! i \<in> set xs" by simp
  then obtain j where j: "index_map xs (xs ! i) = Some j"
    using index_map_None[of xs "xs ! i"] by (cases "index_map xs (xs ! i)") auto
  from index_map_Some[OF j] have "j < length xs" "xs ! j = xs ! i" by simp_all
  with d i have "j = i" by (simp add: nth_eq_iff_index_eq)
  with j show ?thesis by simp
qed

lemma length_assigned [simp]: "length (assigned look m row) = length row"
proof (induction m rule: rev_induct)
  case Nil
  then show ?case by (simp add: assigned_def)
next
  case (snoc kv m)
  then show ?case by (simp add: assigned_def split: option.splits)
qed

lemma assigned_snoc:
  "assigned look (m @ [kv]) row =
     (case look (fst kv) of None \<Rightarrow> assigned look m row
      | Some j \<Rightarrow> (assigned look m row)[j := snd kv])"
  unfolding assigned_def by (simp split: option.splits)

lemma assigned_hit:
  "distinct (map fst m) \<Longrightarrow> inj_on look (fst ` set m) \<Longrightarrow> (k, p) \<in> set m \<Longrightarrow>
     look k = Some j \<Longrightarrow> j < length row \<Longrightarrow> assigned look m row ! j = p"
proof (induction m rule: rev_induct)
  case Nil
  then show ?case by simp
next
  case (snoc kv m)
  show ?case
  proof (cases "kv = (k, p)")
    case True
    then show ?thesis using snoc.prems(4,5) by (simp add: assigned_snoc)
  next
    case False
    then have in_m: "(k, p) \<in> set m" using snoc.prems(3) by auto
    then have "k \<in> fst ` set m" by force
    then have kk: "fst kv \<noteq> k" using snoc.prems(1) by auto
    have "look (fst kv) \<noteq> look k"
    proof
      assume "look (fst kv) = look k"
      moreover have "fst kv \<in> fst ` set (m @ [kv])" "k \<in> fst ` set (m @ [kv])"
        using in_m by force+
      ultimately have "fst kv = k" using snoc.prems(2) by (meson inj_onD)
      with kk show False by simp
    qed
    then have other: "look (fst kv) \<noteq> Some j" using snoc.prems(4) by simp
    have d: "distinct (map fst m)" using snoc.prems(1) by simp
    have i: "inj_on look (fst ` set m)"
      using snoc.prems(2) by (rule inj_on_subset) auto
    from snoc.IH[OF d i in_m snoc.prems(4,5)] other show ?thesis
      by (auto simp: assigned_snoc split: option.splits)
  qed
qed

lemma assigned_miss:
  "\<forall>k\<in>fst ` set m. look k \<noteq> Some j \<Longrightarrow> assigned look m row ! j = row ! j"
proof (induction m rule: rev_induct)
  case Nil
  then show ?case by (simp add: assigned_def)
next
  case (snoc kv m)
  then have "look (fst kv) \<noteq> Some j" "\<forall>k\<in>fst ` set m. look k \<noteq> Some j" by auto
  with snoc.IH show ?case by (auto simp: assigned_snoc split: option.splits)
qed

lemma assigned_Cons:
  "assigned look (kv # m) row =
     assigned look m (case look (fst kv) of None \<Rightarrow> row | Some j \<Rightarrow> row[j := snd kv])"
  by (simp add: assigned_def)

lemma assigned_Nil [simp]: "assigned look [] row = row"
  by (simp add: assigned_def)

lemma initial_loop_assigned:
  "\<forall>k\<in>fst ` set m. sm k \<noteq> None \<Longrightarrow>
     initial_loop fl sm (map (\<lambda>kv. (fst kv, Inl (snd kv))) m) ini = Inr (assigned sm m ini)"
proof (induction m arbitrary: ini)
  case Nil
  then show ?case by simp
next
  case (Cons kv m)
  then obtain j where j: "sm (fst kv) = Some j" by auto
  have "\<forall>k\<in>fst ` set m. sm k \<noteq> None" using Cons.prems by simp
  from Cons.IH[OF this] j show ?case
    by (simp add: py_lookup_def np_float_def assigned_Cons)
qed

lemma trans_loop_assigned:
  "\<forall>k\<in>fst ` set m. sm k \<noteq> None \<Longrightarrow> this < length tr \<Longrightarrow>
     trans_loop fl sm this (map (\<lambda>kv. (fst kv, Inl (snd kv))) m) tr
       = Inr (tr[this := assigned sm m (tr ! this)])"
proof (induction m arbitrary: tr)
  case Nil
  then show ?case by simp
next
  case (Cons kv m)
  then obtain j where j: "sm (fst kv) = Some j" by auto
  have r: "\<forall>k\<in>fst ` set m. sm k \<noteq> None" using Cons.prems by simp
  let ?tr1 = "tr[this := (tr ! this)[j := snd kv]]"
  have l: "this < length ?tr1" using Cons.prems(2) by simp
  from Cons.IH[OF r l] j Cons.prems(2) show ?case
    by (simp add: py_lookup_def np_float_def assigned_Cons)
qed

lemma char_get_look:
  "char_get cm k = (case char_look cm k of None \<Rightarrow> Inl KeyError | Some c \<Rightarrow> Inr c)"
  by (auto simp: char_get_def char_look_def py_lookup_def split: list.splits option.splits)

lemma emis_loop_assigned:
  "\<forall>k\<in>fst ` set m. char_look cm k \<noteq> None \<Longrightarrow> this < length emi \<Longrightarrow>
     emis_loop fl cm this (map (\<lambda>kv. (fst kv, Inl (snd kv))) m) emi
       = Inr (emi[this := assigned (char_look cm) m (emi ! this)])"
proof (induction m arbitrary: emi)
  case Nil
  then show ?case by simp
next
  case (Cons kv m)
  then obtain j where j: "char_look cm (fst kv) = Some j" by auto
  have r: "\<forall>k\<in>fst ` set m. char_look cm k \<noteq> None" using Cons.prems by simp
  let ?e1 = "emi[this := (emi ! this)[j := snd kv]]"
  have l: "this < length ?e1" using Cons.prems(2) by simp
  from Cons.IH[OF r l] j Cons.prems(2) show ?case
    by (simp add: char_get_look np_float_def assigned_Cons)
qed

lemma states_loop_spec:
  assumes "inj_on sm (fst ` set entries)" "distinct (map fst entries)"
    and "\<forall>e\<in>set entries. \<exists>i t o'. sm (fst e) = Some i \<and> i < length tr \<and> i < length emi
          \<and> map_of (snd e) ''trans'' = Some (VMap t) \<and> (\<forall>k\<in>fst ` set t. sm k \<noteq> None)
          \<and> map_of (snd e) ''only'' = Some (VMap o') \<and> (\<forall>k\<in>fst ` set o'. char_look cm k \<noteq> None)"
  shows "\<exists>tr' emi' lm'. states_loop fl sm cm entries (tr, emi, lm) = Inr (tr', emi', lm')
     \<and> length tr' = length tr \<and> length emi' = length emi
     \<and> (\<forall>e\<in>set entries. \<forall>i. sm (fst e) = Some i \<longrightarrow>
            tr' ! i = assigned sm (declared ''trans'' (snd e)) (tr ! i)
          \<and> emi' ! i = assigned (char_look cm) (declared ''only'' (snd e)) (emi ! i)
          \<and> lm' i = (case map_of (snd e) ''label'' of None \<Rightarrow> lm i | Some l \<Rightarrow> Some l))
     \<and> (\<forall>i. (\<forall>e\<in>set entries. sm (fst e) \<noteq> Some i) \<longrightarrow>
            tr' ! i = tr ! i \<and> emi' ! i = emi ! i \<and> lm' i = lm i)"
  using assms
proof (induction entries arbitrary: tr emi lm)
  case Nil
  then show ?case by simp
next
  case (Cons e entries)
  from Cons.prems(3) obtain i t o' where
    e: "sm (fst e) = Some i" "i < length tr" "i < length emi"
      "map_of (snd e) ''trans'' = Some (VMap t)" "\<forall>k\<in>fst ` set t. sm k \<noteq> None"
      "map_of (snd e) ''only'' = Some (VMap o')" "\<forall>k\<in>fst ` set o'. char_look cm k \<noteq> None"
    by auto
  let ?tr1 = "tr[i := assigned sm t (tr ! i)]"
  let ?emi1 = "emi[i := assigned (char_look cm) o' (emi ! i)]"
  let ?lm1 = "case map_of (snd e) ''label'' of None \<Rightarrow> lm | Some l \<Rightarrow> lm(i \<mapsto> l)"
  have step: "states_loop fl sm cm (e # entries) (tr, emi, lm)
      = states_loop fl sm cm entries (?tr1, ?emi1, ?lm1)"
    using e trans_loop_assigned[OF e(5) e(2), of fl] emis_loop_assigned[OF e(7) e(3), of fl]
    by (simp add: py_lookup_def dict_get_def Let_def cong: option.case_cong)
  have inj: "inj_on sm (fst ` set entries)"
    using Cons.prems(1) by (rule inj_on_subset) auto
  have dis: "distinct (map fst entries)" using Cons.prems(2) by simp
  have rest: "\<forall>e\<in>set entries. \<exists>i t o'. sm (fst e) = Some i \<and> i < length ?tr1 \<and> i < length ?emi1
          \<and> map_of (snd e) ''trans'' = Some (VMap t) \<and> (\<forall>k\<in>fst ` set t. sm k \<noteq> None)
          \<and> map_of (snd e) ''only'' = Some (VMap o') \<and> (\<forall>k\<in>fst ` set o'. char_look cm k \<noteq> None)"
    using Cons.prems(3) by simp
  from Cons.IH[OF inj dis rest, of ?lm1] obtain tr' emi' lm' where
    r: "states_loop fl sm cm entries (?tr1, ?emi1, ?lm1) = Inr (tr', emi', lm')"
      "length tr' = length ?tr1" "length emi' = length ?emi1"
    and hit: "\<forall>e\<in>set entries. \<forall>i. sm (fst e) = Some i \<longrightarrow>
            tr' ! i = assigned sm (declared ''trans'' (snd e)) (?tr1 ! i)
          \<and> emi' ! i = assigned (char_look cm) (declared ''only'' (snd e)) (?emi1 ! i)
          \<and> lm' i = (case map_of (snd e) ''label'' of None \<Rightarrow> ?lm1 i | Some l \<Rightarrow> Some l)"
    and miss: "\<forall>i. (\<forall>e\<in>set entries. sm (fst e) \<noteq> Some i) \<longrightarrow>
            tr' ! i = ?tr1 ! i \<and> emi' ! i = ?emi1 ! i \<and> lm' i = ?lm1 i"
    by (elim exE conjE) (rule that; assumption)
  have others: "\<forall>e'\<in>set entries. sm (fst e') \<noteq> Some i"
  proof
    fix e' assume m: "e' \<in> set entries"
    then have "fst e' \<in> fst ` set entries" by simp
    moreover have "fst e \<notin> fst ` set entries" using Cons.prems(2) by simp
    ultimately have "fst e' \<noteq> fst e" by metis
    moreover have "fst e' \<in> fst ` set (e # entries)" "fst e \<in> fst ` set (e # entries)"
      using m by auto
    ultimately have "sm (fst e') \<noteq> sm (fst e)" using Cons.prems(1) by (meson inj_onD)
    then show "sm (fst e') \<noteq> Some i" using e(1) by simp
  qed
  have de: "declared ''trans'' (snd e) = t" "declared ''only'' (snd e) = o'"
    using e(4,6) by (simp_all add: declared_def)
  have lmi: "?lm1 i = (case map_of (snd e) ''label'' of None \<Rightarrow> lm i | Some l \<Rightarrow> Some l)"
    by (simp split: option.splits)
  have head: "tr' ! i = assigned sm (declared ''trans'' (snd e)) (tr ! i)
          \<and> emi' ! i = assigned (char_look cm) (declared ''only'' (snd e)) (emi ! i)
          \<and> lm' i = (case map_of (snd e) ''label'' of None \<Rightarrow> lm i | Some l \<Rightarrow> Some l)"
    using miss others e(2,3) de lmi by simp
  have tail: "\<forall>e'\<in>set entries. \<forall>j. sm (fst e') = Some j \<longrightarrow>
            tr' ! j = assigned sm (declared ''trans'' (snd e')) (tr ! j)
          \<and> emi' ! j = assigned (char_look cm) (declared ''only'' (snd e')) (emi ! j)
          \<and> lm' j = (case map_of (snd e') ''label'' of None \<Rightarrow> lm j | Some l \<Rightarrow> Some l)"
  proof (intro ballI allI impI)
    fix e' j assume m: "e' \<in> set entries" and j: "sm (fst e') = Some j"
    then have ne: "j \<noteq> i" using others by auto
    then have "?tr1 ! j = tr ! j" "?emi1 ! j = emi ! j" "?lm1 j = lm j"
      by (simp_all split: option.splits)
    with hit m j show "tr' ! j = assigned sm (declared ''trans'' (snd e')) (tr ! j)
          \<and> emi' ! j = assigned (char_look cm) (declared ''only'' (snd e')) (emi ! j)
          \<and> lm' j = (case map_of (snd e') ''label'' of None \<Rightarrow> lm j | Some l \<Rightarrow> Some l)"
      by (simp cong: option.case_cong)
  qed
  have all_hit: "\<forall>e'\<in>set (e # entries). \<forall>j. sm (fst e') = Some j \<longrightarrow>
            tr' ! j = assigned sm (declared ''trans'' (snd e')) (tr ! j)
          \<and> emi' ! j = assigned (char_look cm) (declared ''only'' (snd e')) (emi ! j)
          \<and> lm' j = (case map_of (snd e') ''label'' of None \<Rightarrow> lm j | Some l \<Rightarrow> Some l)"
    using head tail e(1) by simp
  have all_miss: "\<forall>j. (\<forall>e'\<in>set (e # entries). sm (fst e') \<noteq> Some j) \<longrightarrow>
            tr' ! j = tr ! j \<and> emi' ! j = emi ! j \<and> lm' j = lm j"
  proof (intro allI impI)
    fix j assume a: "\<forall>e'\<in>set (e # entries). sm (fst e') \<noteq> Some j"
    then have ne: "j \<noteq> i" using e(1) by auto
    then have "?tr1 ! j = tr ! j" "?emi1 ! j = emi ! j" "?lm1 j = lm j"
      by (simp_all split: option.splits)
    with miss a show "tr' ! j = tr ! j \<and> emi' ! j = emi ! j \<and> lm' j = lm j" by simp
  qed
  have "states_loop fl sm cm (e # entries) (tr, emi, lm) = Inr (tr', emi', lm')
     \<and> length tr' = length tr \<and> length emi' = length emi"
    using step r by simp
  with all_hit all_miss show ?case by blast
qed

lemma index_map_inj_on: "inj_on (index_map xs) (set xs)"
proof (rule inj_onI)
  fix a b assume a: "a \<in> set xs" and b: "b \<in> set xs" and e: "index_map xs a = index_map xs b"
  from a obtain i where i: "index_map xs a = Some i"
    using index_map_None[of xs a] by (cases "index_map xs a") auto
  from index_map_Some[OF i] index_map_Some[of xs b i] e i show "a = b" by simp
qed

lemma assigned_names:
  assumes "distinct names" "distinct (map fst m)" "\<forall>k\<in>fst ` set m. k \<in> set names"
    and "j < length names" "length row = length names"
  shows "assigned (index_map names) m row ! j
           = (case map_of m (names ! j) of None \<Rightarrow> row ! j | Some p \<Rightarrow> p)"
proof (cases "map_of m (names ! j)")
  case None
  then have nk: "names ! j \<notin> fst ` set m" by (simp add: map_of_eq_None_iff)
  have "\<forall>k\<in>fst ` set m. index_map names k \<noteq> Some j"
  proof
    fix k assume k: "k \<in> fst ` set m"
    show "index_map names k \<noteq> Some j"
    proof
      assume "index_map names k = Some j"
      from index_map_Some[OF this] k nk show False by simp
    qed
  qed
  from assigned_miss[OF this] None show ?thesis by simp
next
  case (Some p)
  then have mem: "(names ! j, p) \<in> set m" by (rule map_of_SomeD)
  have inj: "inj_on (index_map names) (fst ` set m)"
    using index_map_inj_on[of names] assms(3) by (auto intro: inj_on_subset)
  have look: "index_map names (names ! j) = Some j"
    using index_map_distinct[OF assms(1,4)] .
  have "j < length row" using assms(4,5) by simp
  from assigned_hit[OF assms(2) inj mem look this] Some show ?thesis by simp
qed

lemma char_look_single [simp]: "char_look cm [c] = cm c"
  by (simp add: char_look_def)

lemma assigned_chars:
  assumes "distinct (map fst m)" "\<forall>k\<in>fst ` set m. \<exists>c. k = [c] \<and> c \<in> set alphabet"
    and "c < length alphabet" "length row = length alphabet"
  shows "assigned (char_look (index_map alphabet)) m row ! c
           = (if index_map alphabet (alphabet ! c) = Some c
              then (case map_of m [alphabet ! c] of None \<Rightarrow> row ! c | Some p \<Rightarrow> p)
              else row ! c)"
proof -
  let ?cm = "index_map alphabet"
  have key: "\<And>k. k \<in> fst ` set m \<Longrightarrow> char_look ?cm k = Some c \<Longrightarrow>
      k = [alphabet ! c] \<and> ?cm (alphabet ! c) = Some c"
  proof -
    fix k assume k: "k \<in> fst ` set m" and l: "char_look ?cm k = Some c"
    from assms(2) k obtain ch where ch: "k = [ch]" by blast
    with l have "?cm ch = Some c" by simp
    from index_map_Some[OF this] this ch show "k = [alphabet ! c] \<and> ?cm (alphabet ! c) = Some c"
      by simp
  qed
  show ?thesis
  proof (cases "?cm (alphabet ! c) = Some c \<and> map_of m [alphabet ! c] \<noteq> None")
    case True
    then obtain p where p: "map_of m [alphabet ! c] = Some p" by auto
    then have mem: "([alphabet ! c], p) \<in> set m" by (rule map_of_SomeD)
    have inj: "inj_on (char_look ?cm) (fst ` set m)"
    proof (rule inj_onI)
      fix a b assume a: "a \<in> fst ` set m" and b: "b \<in> fst ` set m"
        and e: "char_look ?cm a = char_look ?cm b"
      from assms(2) a obtain x where x: "a = [x]" "x \<in> set alphabet" by blast
      from assms(2) b obtain y where y: "b = [y]" "y \<in> set alphabet" by blast
      from e x y have "?cm x = ?cm y" by simp
      with x(2) y(2) have "x = y" using index_map_inj_on[of alphabet] by (meson inj_onD)
      with x y show "a = b" by simp
    qed
    have look: "char_look ?cm [alphabet ! c] = Some c" using True by simp
    have "c < length row" using assms(3,4) by simp
    from assigned_hit[OF assms(1) inj mem look this] True p show ?thesis by simp
  next
    case False
    have "\<forall>k\<in>fst ` set m. char_look ?cm k \<noteq> Some c"
    proof
      fix k assume k: "k \<in> fst ` set m"
      show "char_look ?cm k \<noteq> Some c"
      proof
        assume "char_look ?cm k = Some c"
        from key[OF k this] k have "?cm (alphabet ! c) = Some c" "[alphabet ! c] \<in> fst ` set m"
          by auto
        then show False using False by (simp add: map_of_eq_None_iff)
      qed
    qed
    from assigned_miss[OF this] False show ?thesis by (auto split: option.splits)
  qed
qed

lemma set_delete: "set (AList.delete k al) = {e \<in> set al. fst e \<noteq> k}"
  by (auto simp: AList.delete_eq)

lemma nth_zeros2: "i < n \<Longrightarrow> zeros2 n m z ! i = replicate m z"
  by (simp add: zeros2_def)

lemma map_of_enumerate:
  "map_of (List.enumerate n xs) k =
     (if n \<le> k \<and> k < n + length xs then Some (xs ! (k - n)) else None)"
proof (induction xs arbitrary: n)
  case Nil
  then show ?case by simp
next
  case (Cons x xs)
  show ?case
  proof (cases "k = n")
    case True
    then show ?thesis by simp
  next
    case False
    then show ?thesis using Cons[of "Suc n"] by (auto simp: Suc_diff_le)
  qed
qed

lemma example_states_ready: "matrix_ready ''AB'' example_states"
  unfolding matrix_ready_def example_states_def by simp

lemma example_states_matrix:
  "\<exists>cm lm nm. to_matrix_form example_float ''AB'' example_states =
     Inr ([1, 0], [[1/2, 1/2], [0, 1]], [[1, 0], [1/2, 1/2]], cm, lm, nm)"
  by (simp add: to_matrix_form_def example_states_def dict_get_def index_map_def zeros2_def
      enumerate_eq_zip upt_rec py_lookup_def char_get_def np_float_def Let_def)

text \<open>
  Claim C3. For a state dictionary as \<open>matrix_ready\<close> describes, \<open>to_matrix_form\<close> raises
  nothing. The states of the result are those of the dictionary without \<^verbatim>\<open>begin\<close>, in
  insertion order: \<open>name_map\<close> lists them, none is \<^verbatim>\<open>begin\<close>, \<open>label_map\<close> holds their
  labels. The entry \<open>i\<close> of \<open>initial\<close> is the probability that the \<^verbatim>\<open>trans\<close> of \<^verbatim>\<open>begin\<close>
  gives state \<open>i\<close>, the entry \<open>(i, j)\<close> of \<open>transitions\<close> the probability that the \<^verbatim>\<open>trans\<close>
  of state \<open>i\<close> gives state \<open>j\<close>, and the entry \<open>(i, c)\<close> of \<open>emissions\<close> the probability that
  the \<^verbatim>\<open>only\<close> of state \<open>i\<close> gives the symbol of column \<open>c\<close>; each is 0 where the dictionary
  has no such key, and a column that \<open>char_map\<close> gives no symbol stays 0.
\<close>

theorem to_matrix_form_entries:
  assumes "matrix_ready alphabet states0"
  shows "\<exists>ini tr emi cm lm nm.
       to_matrix_form fl alphabet states0 = Inr (ini, tr, emi, cm, lm, nm)
     \<and> length ini = length (AList.delete ''begin'' states0)
     \<and> length tr = length (AList.delete ''begin'' states0)
     \<and> length emi = length (AList.delete ''begin'' states0)
     \<and> cm = index_map alphabet
     \<and> (\<forall>i<length (AList.delete ''begin'' states0).
           nm i = Some (fst (AList.delete ''begin'' states0 ! i))
         \<and> fst (AList.delete ''begin'' states0 ! i) \<noteq> ''begin''
         \<and> lm i = map_of (snd (AList.delete ''begin'' states0 ! i)) ''label''
         \<and> length (tr ! i) = length (AList.delete ''begin'' states0)
         \<and> length (emi ! i) = length alphabet
         \<and> (\<forall>begin. map_of states0 ''begin'' = Some begin \<longrightarrow>
               ini ! i = prob_of (declared ''trans'' begin) (fst (AList.delete ''begin'' states0 ! i)))
         \<and> (\<forall>j<length (AList.delete ''begin'' states0).
               tr ! i ! j = prob_of (declared ''trans'' (snd (AList.delete ''begin'' states0 ! i)))
                              (fst (AList.delete ''begin'' states0 ! j)))
         \<and> (\<forall>c<length alphabet.
               emi ! i ! c =
                 (if cm (alphabet ! c) = Some c
                  then prob_of (declared ''only'' (snd (AList.delete ''begin'' states0 ! i)))
                         [alphabet ! c]
                  else 0)))"
proof -
  let ?states = "AList.delete ''begin'' states0"
  let ?names = "map fst ?states"
  let ?n = "length ?states"
  let ?sm = "index_map ?names"
  let ?cm = "index_map alphabet"
  from assms[unfolded matrix_ready_def] obtain bgn bt where
    d0: "distinct (map fst states0)"
    and bg: "map_of states0 ''begin'' = Some bgn" "map_of bgn ''trans'' = Some (VMap bt)"
      "distinct (map fst bt)" "\<forall>k\<in>fst ` set bt. k \<in> fst ` set states0 \<and> k \<noteq> ''begin''"
    and st: "\<forall>e\<in>set states0. fst e \<noteq> ''begin'' \<longrightarrow>
         (\<exists>t o'. map_of (snd e) ''trans'' = Some (VMap t) \<and> distinct (map fst t)
            \<and> (\<forall>k\<in>fst ` set t. k \<in> fst ` set states0 \<and> k \<noteq> ''begin'')
            \<and> map_of (snd e) ''only'' = Some (VMap o') \<and> distinct (map fst o')
            \<and> (\<forall>k\<in>fst ` set o'. \<exists>c. k = [c] \<and> c \<in> set alphabet))"
    by (elim exE conjE) (rule that; assumption)
  have dn: "distinct ?names" using d0 by (rule distinct_delete)
  have names: "set ?names = fst ` set states0 - {''begin''}"
    by (auto simp: set_delete)
  have known: "\<And>k. k \<in> fst ` set states0 \<Longrightarrow> k \<noteq> ''begin'' \<Longrightarrow> k \<in> set ?names"
    using names by simp
  have smk: "\<And>k. k \<in> set ?names \<Longrightarrow> ?sm k \<noteq> None"
    by (simp add: index_map_None)
  have smi: "\<And>i. i < ?n \<Longrightarrow> ?sm (fst (?states ! i)) = Some i"
    using index_map_distinct[OF dn] by simp
  have btk: "\<forall>k\<in>fst ` set bt. k \<in> set ?names" using bg(4) known by blast
  have init: "initial_loop fl ?sm (map (\<lambda>kv. (fst kv, Inl (snd kv))) bt) (replicate ?n 0)
      = Inr (assigned ?sm bt (replicate ?n 0))"
    using btk smk by (intro initial_loop_assigned) blast
  have inj: "inj_on ?sm (fst ` set ?states)"
    using index_map_inj_on[of ?names] by simp
  have dis: "distinct (map fst ?states)" by (rule dn)
  have ent: "\<forall>e\<in>set ?states. \<exists>i t o'. ?sm (fst e) = Some i
          \<and> i < length (zeros2 ?n ?n (0::real)) \<and> i < length (zeros2 ?n (length alphabet) (0::real))
          \<and> map_of (snd e) ''trans'' = Some (VMap t) \<and> (\<forall>k\<in>fst ` set t. ?sm k \<noteq> None)
          \<and> map_of (snd e) ''only'' = Some (VMap o')
          \<and> (\<forall>k\<in>fst ` set o'. char_look ?cm k \<noteq> None)"
  proof
    fix e assume e: "e \<in> set ?states"
    then have e0: "e \<in> set states0" "fst e \<noteq> ''begin''" by (simp_all add: set_delete)
    with st obtain t o' where
      t: "map_of (snd e) ''trans'' = Some (VMap t)"
        "\<forall>k\<in>fst ` set t. k \<in> fst ` set states0 \<and> k \<noteq> ''begin''"
      and o': "map_of (snd e) ''only'' = Some (VMap o')"
        "\<forall>k\<in>fst ` set o'. \<exists>c. k = [c] \<and> c \<in> set alphabet"
      by blast
    from e obtain i where i: "i < ?n" "?states ! i = e" by (auto simp: in_set_conv_nth)
    have a: "?sm (fst e) = Some i" using smi[OF i(1)] i(2) by simp
    have b: "\<forall>k\<in>fst ` set t. ?sm k \<noteq> None" using t(2) known smk by blast
    have c: "\<forall>k\<in>fst ` set o'. char_look ?cm k \<noteq> None"
    proof
      fix k assume "k \<in> fst ` set o'"
      with o'(2) obtain ch where "k = [ch]" "ch \<in> set alphabet" by blast
      then show "char_look ?cm k \<noteq> None" by (simp add: index_map_None)
    qed
    show "\<exists>i t o'. ?sm (fst e) = Some i
          \<and> i < length (zeros2 ?n ?n (0::real)) \<and> i < length (zeros2 ?n (length alphabet) (0::real))
          \<and> map_of (snd e) ''trans'' = Some (VMap t) \<and> (\<forall>k\<in>fst ` set t. ?sm k \<noteq> None)
          \<and> map_of (snd e) ''only'' = Some (VMap o')
          \<and> (\<forall>k\<in>fst ` set o'. char_look ?cm k \<noteq> None)"
      using a b c t(1) o'(1) i(1) by (auto simp: zeros2_def)
  qed
  from states_loop_spec[OF inj dis ent, of fl Map.empty] obtain tr emi lm where
    run: "states_loop fl ?sm ?cm ?states (zeros2 ?n ?n 0, zeros2 ?n (length alphabet) 0, Map.empty)
        = Inr (tr, emi, lm)"
    and len: "length tr = length (zeros2 ?n ?n (0::real))"
      "length emi = length (zeros2 ?n (length alphabet) (0::real))"
    and hit: "\<forall>e\<in>set ?states. \<forall>i. ?sm (fst e) = Some i \<longrightarrow>
            tr ! i = assigned ?sm (declared ''trans'' (snd e)) (zeros2 ?n ?n 0 ! i)
          \<and> emi ! i = assigned (char_look ?cm) (declared ''only'' (snd e))
                         (zeros2 ?n (length alphabet) 0 ! i)
          \<and> lm i = (case map_of (snd e) ''label'' of None \<Rightarrow> Map.empty i | Some l \<Rightarrow> Some l)"
    by (elim exE conjE) (rule that; assumption)
  let ?ini = "assigned ?sm bt (replicate ?n 0)"
  let ?nm = "map_of (List.enumerate 0 ?names)"
  have res: "to_matrix_form fl alphabet states0 = Inr (?ini, tr, emi, ?cm, lm, ?nm)"
    using bg(1,2) init run by (simp add: to_matrix_form_def dict_get_def Let_def)
  have lens: "length ?ini = ?n" "length tr = ?n" "length emi = ?n"
    using len by (simp_all add: zeros2_def)
  have rows: "\<forall>i<?n.
           ?nm i = Some (fst (?states ! i))
         \<and> fst (?states ! i) \<noteq> ''begin''
         \<and> lm i = map_of (snd (?states ! i)) ''label''
         \<and> length (tr ! i) = ?n
         \<and> length (emi ! i) = length alphabet
         \<and> (\<forall>begin. map_of states0 ''begin'' = Some begin \<longrightarrow>
               ?ini ! i = prob_of (declared ''trans'' begin) (fst (?states ! i)))
         \<and> (\<forall>j<?n. tr ! i ! j = prob_of (declared ''trans'' (snd (?states ! i)))
                              (fst (?states ! j)))
         \<and> (\<forall>c<length alphabet.
               emi ! i ! c =
                 (if ?cm (alphabet ! c) = Some c
                  then prob_of (declared ''only'' (snd (?states ! i))) [alphabet ! c]
                  else 0))"
  proof (intro allI impI)
    fix i assume i: "i < ?n"
    let ?e = "?states ! i"
    have e: "?e \<in> set ?states" using i by simp
    then have e0: "?e \<in> set states0" "fst ?e \<noteq> ''begin''" by (simp_all add: set_delete)
    with st obtain t o' where
      t: "map_of (snd ?e) ''trans'' = Some (VMap t)" "distinct (map fst t)"
        "\<forall>k\<in>fst ` set t. k \<in> fst ` set states0 \<and> k \<noteq> ''begin''"
      and o': "map_of (snd ?e) ''only'' = Some (VMap o')" "distinct (map fst o')"
        "\<forall>k\<in>fst ` set o'. \<exists>c. k = [c] \<and> c \<in> set alphabet"
      by blast
    have de: "declared ''trans'' (snd ?e) = t" "declared ''only'' (snd ?e) = o'"
      using t(1) o'(1) by (simp_all add: declared_def)
    from hit e smi[OF i] have h:
      "tr ! i = assigned ?sm (declared ''trans'' (snd ?e)) (zeros2 ?n ?n 0 ! i)
       \<and> emi ! i = assigned (char_look ?cm) (declared ''only'' (snd ?e))
                         (zeros2 ?n (length alphabet) 0 ! i)
       \<and> lm i = (case map_of (snd ?e) ''label'' of None \<Rightarrow> Map.empty i | Some l \<Rightarrow> Some l)"
      by blast
    have tri: "tr ! i = assigned ?sm t (zeros2 ?n ?n 0 ! i)"
      and emii: "emi ! i = assigned (char_look ?cm) o' (zeros2 ?n (length alphabet) 0 ! i)"
      and lmi: "lm i = (case map_of (snd ?e) ''label'' of None \<Rightarrow> None | Some l \<Rightarrow> Some l)"
      using h unfolding de by simp_all
    have tri': "tr ! i = assigned ?sm t (replicate ?n 0)"
      using tri i by (simp add: nth_zeros2)
    have emii': "emi ! i = assigned (char_look ?cm) o' (replicate (length alphabet) 0)"
      using emii i by (simp add: nth_zeros2)
    have tk: "\<forall>k\<in>fst ` set t. k \<in> set ?names" using t(3) known by blast
    have nmi: "?nm i = Some (fst ?e)"
      using i by (simp add: map_of_enumerate)
    have c1: "lm i = map_of (snd ?e) ''label''" using lmi by (simp split: option.splits)
    have c2: "\<forall>begin'. map_of states0 ''begin'' = Some begin' \<longrightarrow>
               ?ini ! i = prob_of (declared ''trans'' begin') (fst ?e)"
    proof (intro allI impI)
      fix begin' assume "map_of states0 ''begin'' = Some begin'"
      then have "begin' = bgn" using bg(1) by simp
      then have "declared ''trans'' begin' = bt" using bg(2) by (simp add: declared_def)
      moreover have "?ini ! i = (case map_of bt (?names ! i) of None \<Rightarrow> replicate ?n 0 ! i | Some p \<Rightarrow> p)"
        using i by (intro assigned_names[OF dn bg(3) btk]) simp_all
      ultimately show "?ini ! i = prob_of (declared ''trans'' begin') (fst ?e)"
        using i by (simp add: prob_of_def split: option.splits)
    qed
    have c3: "\<forall>j<?n. tr ! i ! j = prob_of (declared ''trans'' (snd ?e)) (fst (?states ! j))"
    proof (intro allI impI)
      fix j assume j: "j < ?n"
      have "assigned ?sm t (replicate ?n 0) ! j
          = (case map_of t (?names ! j) of None \<Rightarrow> replicate ?n 0 ! j | Some p \<Rightarrow> p)"
        using j by (intro assigned_names[OF dn t(2) tk]) simp_all
      then show "tr ! i ! j = prob_of (declared ''trans'' (snd ?e)) (fst (?states ! j))"
        using j tri' de by (simp add: prob_of_def split: option.splits)
    qed
    have c4: "\<forall>c<length alphabet. emi ! i ! c =
                 (if ?cm (alphabet ! c) = Some c
                  then prob_of (declared ''only'' (snd ?e)) [alphabet ! c] else 0)"
    proof (intro allI impI)
      fix c assume c: "c < length alphabet"
      have "assigned (char_look ?cm) o' (replicate (length alphabet) 0) ! c
           = (if ?cm (alphabet ! c) = Some c
              then (case map_of o' [alphabet ! c] of None \<Rightarrow> replicate (length alphabet) 0 ! c
                    | Some p \<Rightarrow> p)
              else replicate (length alphabet) 0 ! c)"
        using c by (intro assigned_chars[OF o'(2,3)]) simp_all
      then show "emi ! i ! c =
                 (if ?cm (alphabet ! c) = Some c
                  then prob_of (declared ''only'' (snd ?e)) [alphabet ! c] else 0)"
        using c emii' de by (simp add: prob_of_def split: option.splits)
    qed
    have c5: "length (tr ! i) = ?n" "length (emi ! i) = length alphabet"
      using tri' emii' by simp_all
    show "?nm i = Some (fst ?e)
         \<and> fst ?e \<noteq> ''begin''
         \<and> lm i = map_of (snd ?e) ''label''
         \<and> length (tr ! i) = ?n
         \<and> length (emi ! i) = length alphabet
         \<and> (\<forall>begin. map_of states0 ''begin'' = Some begin \<longrightarrow>
               ?ini ! i = prob_of (declared ''trans'' begin) (fst ?e))
         \<and> (\<forall>j<?n. tr ! i ! j = prob_of (declared ''trans'' (snd ?e)) (fst (?states ! j)))
         \<and> (\<forall>c<length alphabet.
               emi ! i ! c =
                 (if ?cm (alphabet ! c) = Some c
                  then prob_of (declared ''only'' (snd ?e)) [alphabet ! c]
                  else 0))"
      using nmi e0(2) c1 c2 c3 c4 c5 by (intro conjI) assumption+
  qed
  show ?thesis
    by (intro exI conjI, rule res) (rule lens rows refl)+
qed

theorem to_matrix_form_entries_witness:
  "matrix_ready ''AB'' example_states
   \<and> (\<exists>ini tr emi cm lm nm.
         to_matrix_form example_float ''AB'' example_states = Inr (ini, tr, emi, cm, lm, nm)
       \<and> ini = [1, 0] \<and> tr = [[1/2, 1/2], [0, 1]] \<and> emi = [[1, 0], [1/2, 1/2]]
       \<and> nm 0 = Some ''s1'' \<and> nm 1 = Some ''s2''
       \<and> lm 0 = Some (VStr ''i'') \<and> lm 1 = Some (VStr ''o'')
       \<and> ini ! 1 = prob_of [(''s1'', 1)] ''s2''
       \<and> tr ! 1 ! 0 = prob_of [(''s2'', 1)] ''s1'')"
proof -
  have h: "matrix_ready ''AB'' example_states" by (rule example_states_ready)
  have del: "AList.delete ''begin'' example_states =
     [(''s1'', [(''trans'', VMap [(''s1'', 1/2), (''s2'', 1/2)]),
                (''only'', VMap [(''A'', 1), (''B'', 0)]),
                (''label'', VStr ''i'')]),
      (''s2'', [(''trans'', VMap [(''s2'', 1)]),
                (''only'', VMap [(''A'', 1/2), (''B'', 1/2)]),
                (''label'', VStr ''o'')])]"
    by (simp add: example_states_def)
  have bg: "map_of example_states ''begin'' = Some [(''trans'', VMap [(''s1'', 1)])]"
    by (simp add: example_states_def)
  from to_matrix_form_entries [OF h, of example_float]
  obtain ini tr emi cm lm nm where
    run: "to_matrix_form example_float ''AB'' example_states = Inr (ini, tr, emi, cm, lm, nm)"
    and rows: "\<forall>i<length (AList.delete ''begin'' example_states).
           nm i = Some (fst (AList.delete ''begin'' example_states ! i))
         \<and> fst (AList.delete ''begin'' example_states ! i) \<noteq> ''begin''
         \<and> lm i = map_of (snd (AList.delete ''begin'' example_states ! i)) ''label''
         \<and> length (tr ! i) = length (AList.delete ''begin'' example_states)
         \<and> length (emi ! i) = length ''AB''
         \<and> (\<forall>begin. map_of example_states ''begin'' = Some begin \<longrightarrow>
               ini ! i = prob_of (declared ''trans'' begin)
                           (fst (AList.delete ''begin'' example_states ! i)))
         \<and> (\<forall>j<length (AList.delete ''begin'' example_states).
               tr ! i ! j = prob_of (declared ''trans'' (snd (AList.delete ''begin'' example_states ! i)))
                              (fst (AList.delete ''begin'' example_states ! j)))
         \<and> (\<forall>c<length ''AB''.
               emi ! i ! c =
                 (if cm (''AB'' ! c) = Some c
                  then prob_of (declared ''only'' (snd (AList.delete ''begin'' example_states ! i)))
                         [''AB'' ! c]
                  else 0))"
    by (elim exE conjE) (rule that; assumption)
  from example_states_matrix run
  have vals: "ini = [1, 0]" "tr = [[1/2, 1/2], [0, 1]]" "emi = [[1, 0], [1/2, 1/2]]"
    by auto
  have l: "length (AList.delete ''begin'' example_states) = 2" unfolding del by simp
  have r0: "nm 0 = Some ''s1'' \<and> lm 0 = Some (VStr ''i'')"
    using rows[rule_format, of 0] unfolding l del by simp
  have r1: "nm 1 = Some ''s2'' \<and> lm 1 = Some (VStr ''o'')
      \<and> ini ! 1 = prob_of [(''s1'', 1)] ''s2''
      \<and> tr ! 1 ! 0 = prob_of [(''s2'', 1)] ''s1''"
    using rows[rule_format, of 1] bg unfolding l del by (simp add: declared_def)
  have "to_matrix_form example_float ''AB'' example_states = Inr (ini, tr, emi, cm, lm, nm)
       \<and> ini = [1, 0] \<and> tr = [[1/2, 1/2], [0, 1]] \<and> emi = [[1, 0], [1/2, 1/2]]
       \<and> nm 0 = Some ''s1'' \<and> nm 1 = Some ''s2''
       \<and> lm 0 = Some (VStr ''i'') \<and> lm 1 = Some (VStr ''o'')
       \<and> ini ! 1 = prob_of [(''s1'', 1)] ''s2''
       \<and> tr ! 1 ! 0 = prob_of [(''s2'', 1)] ''s1''"
    using run vals r0 r1 by simp
  then have "\<exists>ini tr emi cm lm nm.
         to_matrix_form example_float ''AB'' example_states = Inr (ini, tr, emi, cm, lm, nm)
       \<and> ini = [1, 0] \<and> tr = [[1/2, 1/2], [0, 1]] \<and> emi = [[1, 0], [1/2, 1/2]]
       \<and> nm 0 = Some ''s1'' \<and> nm 1 = Some ''s2''
       \<and> lm 0 = Some (VStr ''i'') \<and> lm 1 = Some (VStr ''o'')
       \<and> ini ! 1 = prob_of [(''s1'', 1)] ''s2''
       \<and> tr ! 1 ! 0 = prob_of [(''s2'', 1)] ''s1''"
    by (intro exI)
  with h show ?thesis by (intro conjI)
qed

end
